theory Spec2Isabelle
  imports Main
begin

unbundle bit_operations_syntax

section \<open>Errors and Python string operations\<close>

text \<open>
  The module \<^verbatim>\<open>nti/mailer/_verp.py\<close> is Python 2 code (it imports \<^verbatim>\<open>rfc822\<close>), and it
  starts with \<^verbatim>\<open>from __future__ import unicode_literals\<close>: a string literal of the module is a
  unicode object, a literal written \<^verbatim>\<open>b'...'\<close> and every literal of the standard library and of
  \<^verbatim>\<open>itsdangerous\<close> is a byte string.

  Every exception the module or the library functions it calls can raise is a value of
  \<open>error\<close>; a function that can raise returns \<open>error + 'a\<close> with \<open>Inl\<close> for the exception.
\<close>

datatype error =
  ValueError | TypeError | AttributeError | IndexError | StructError | BadSignature |
  UnicodeDecodeError

text \<open>
  A byte string (\<^verbatim>\<open>str\<close>) is a \<^typ>\<open>string\<close>, a list of 8-bit characters. A Python 2 text value
  is either a byte string or a unicode object; \<open>pystr\<close> keeps the two apart. A unicode object
  is held as the bytes of its UTF-8 encoding. Every character the module and its libraries look
  for (separators, RFC 822 specials, white space, \<open>%\<close> and hexadecimal digits) is ASCII: it is one
  byte of the encoding and no byte of the encoding of another character, so searching, splitting
  and parsing act on the encoding as they do on the unicode object.
\<close>

datatype pystr = Str string | Unicode string

fun content :: "pystr \<Rightarrow> string" where
  "content (Str s) = s"
| "content (Unicode u) = u"

text \<open>\<open>like p s\<close> is the text \<open>s\<close> with the type of \<open>p\<close>: a slice or a piece of \<open>p\<close>.\<close>

fun like :: "pystr \<Rightarrow> string \<Rightarrow> pystr" where
  "like (Str _) s = Str s"
| "like (Unicode _) s = Unicode s"

definition ascii :: "string \<Rightarrow> bool" where
  "ascii s = list_all (\<lambda>c. (of_char c :: nat) < 128) s"

text \<open>
  Where a byte string meets a unicode object Python 2 first decodes the byte string with the
  default codec, ASCII: a byte of 128 or more is a \<^verbatim>\<open>UnicodeDecodeError\<close>.
\<close>

fun decodable :: "pystr \<Rightarrow> bool" where
  "decodable (Str s) = ascii s"
| "decodable (Unicode u) = True"

text \<open>\<^verbatim>\<open>a + b\<close>, and \<^verbatim>\<open>a + b1 + ... + bn\<close> evaluated from the left.\<close>

fun py_add :: "pystr \<Rightarrow> pystr \<Rightarrow> error + pystr" where
  "py_add (Str a) (Str b) = Inr (Str (a @ b))"
| "py_add a b =
     (if decodable a \<and> decodable b then Inr (Unicode (content a @ content b))
      else Inl UnicodeDecodeError)"

fun py_sum :: "pystr \<Rightarrow> pystr list \<Rightarrow> error + pystr" where
  "py_sum a [] = Inr a"
| "py_sum a (b # bs) = (case py_add a b of Inl e \<Rightarrow> Inl e | Inr ab \<Rightarrow> py_sum ab bs)"

text \<open>
  \<^verbatim>\<open>c in s\<close> and \<^verbatim>\<open>s.split(c)\<close> for a one-character unicode literal \<open>c\<close>: a byte string \<open>s\<close> is
  decoded first, and the pieces of the split are unicode objects.
\<close>

definition contains_u :: "char \<Rightarrow> pystr \<Rightarrow> error + bool" where
  "contains_u c s = (if decodable s then Inr (c \<in> set (content s)) else Inl UnicodeDecodeError)"

text \<open>\<^verbatim>\<open>s.split(c)\<close> for a one-character separator: the pieces between the occurrences of \<open>c\<close>.\<close>

function split_char :: "char \<Rightarrow> string \<Rightarrow> string list" where
  "split_char c s =
     takeWhile (\<lambda>x. x \<noteq> c) s #
       (case dropWhile (\<lambda>x. x \<noteq> c) s of [] \<Rightarrow> [] | _ # r \<Rightarrow> split_char c r)"
  by pat_completeness auto
termination
proof (relation "measure (\<lambda>(c, s). length s)")
  show "wf (measure (\<lambda>(c, s). length s))" by simp
next
  fix c :: char and s x21 x22
  assume "dropWhile (\<lambda>x. x \<noteq> c) s = x21 # x22"
  moreover have "length (dropWhile (\<lambda>x. x \<noteq> c) s) \<le> length s"
    by (rule length_dropWhile_le)
  ultimately show "((c, x22), (c, s)) \<in> measure (\<lambda>(c, s). length s)" by simp
qed

text \<open>\<^verbatim>\<open>s.rsplit(c, 1)\<close>: one piece when \<open>c\<close> is absent, else the text before and after the last \<open>c\<close>.\<close>

definition rsplit1 :: "char \<Rightarrow> string \<Rightarrow> string list" where
  "rsplit1 c s =
     (if c \<in> set s
      then [rev (tl (dropWhile (\<lambda>x. x \<noteq> c) (rev s))), rev (takeWhile (\<lambda>x. x \<noteq> c) (rev s))]
      else [s])"

definition split_u :: "char \<Rightarrow> pystr \<Rightarrow> error + pystr list" where
  "split_u c s =
     (if decodable s then Inr (map Unicode (split_char c (content s))) else Inl UnicodeDecodeError)"

text \<open>
  \<^verbatim>\<open>s.strip()\<close>. On a byte string Python 2 strips space, tab, newline, carriage return, VT and
  FF. On a unicode object it strips every character for which \<^verbatim>\<open>isspace()\<close> holds: those six,
  U+001C to U+001F, U+0085, U+00A0, U+1680, U+180E, U+2000 to U+200A, U+2028, U+2029, U+202F,
  U+205F and U+3000, given here by their UTF-8 encodings.
\<close>

definition whitespace :: "char \<Rightarrow> bool" where
  "whitespace c = (c \<in> set [CHR '' '', CHR 0x09, CHR 0x0A, CHR 0x0D, CHR 0x0B, CHR 0x0C])"

definition strip_str :: "string \<Rightarrow> string" where
  "strip_str s = rev (dropWhile whitespace (rev (dropWhile whitespace s)))"

definition unicode_spaces :: "string list" where
  "unicode_spaces =
     map (\<lambda>c. [c]) [CHR '' '', CHR 0x09, CHR 0x0A, CHR 0x0D, CHR 0x0B, CHR 0x0C,
                     CHR 0x1C, CHR 0x1D, CHR 0x1E, CHR 0x1F] @
     [[CHR 0xC2, CHR 0x85], [CHR 0xC2, CHR 0xA0],
      [CHR 0xE1, CHR 0x9A, CHR 0x80], [CHR 0xE1, CHR 0xA0, CHR 0x8E]] @
     map (\<lambda>c. [CHR 0xE2, CHR 0x80, c])
       [CHR 0x80, CHR 0x81, CHR 0x82, CHR 0x83, CHR 0x84, CHR 0x85, CHR 0x86, CHR 0x87, CHR 0x88,
        CHR 0x89, CHR 0x8A, CHR 0xA8, CHR 0xA9, CHR 0xAF] @
     [[CHR 0xE2, CHR 0x81, CHR 0x9F], [CHR 0xE3, CHR 0x80, CHR 0x80]]"

text \<open>The length of the white-space character \<open>s\<close> starts with, or 0.\<close>

definition space_prefix :: "string list \<Rightarrow> string \<Rightarrow> nat" where
  "space_prefix spaces s =
     (case filter (\<lambda>w. take (length w) s = w) spaces of [] \<Rightarrow> 0 | w # _ \<Rightarrow> length w)"

function lstrip_with :: "string list \<Rightarrow> string \<Rightarrow> string" where
  "lstrip_with spaces s =
     (if space_prefix spaces s = 0 then s else lstrip_with spaces (drop (space_prefix spaces s) s))"
  by pat_completeness auto
termination
proof (relation "measure (\<lambda>(spaces, s). length s)", goal_cases)
  case 1
  show ?case by simp
next
  case (2 spaces s)
  have "space_prefix spaces s \<le> length s"
  proof (cases "filter (\<lambda>w. take (length w) s = w) spaces")
    case Nil
    then show ?thesis by (simp add: space_prefix_def)
  next
    case (Cons w ws)
    then have "w \<in> set (filter (\<lambda>w. take (length w) s = w) spaces)" by simp
    then have "take (length w) s = w" by simp
    then have "length (take (length w) s) = length w" by simp
    then have "length w \<le> length s" by simp
    then show ?thesis using Cons by (simp add: space_prefix_def)
  qed
  then show ?case using 2 by simp
qed

definition strip_unicode :: "string \<Rightarrow> string" where
  "strip_unicode u =
     rev (lstrip_with (map rev unicode_spaces) (rev (lstrip_with unicode_spaces u)))"

fun strip :: "pystr \<Rightarrow> pystr" where
  "strip (Str s) = Str (strip_str s)"
| "strip (Unicode u) = Unicode (strip_unicode u)"

section \<open>The digest primitive\<close>

text \<open>
  \<^verbatim>\<open>zlib.adler32(data)\<close>: two sums modulo 65521 starting from \<open>(1, 0)\<close>, combined as
  \<open>b * 2^16 + a\<close>. Python 2 returns the 32-bit value as a signed integer.
\<close>

definition adler32_step :: "nat \<times> nat \<Rightarrow> char \<Rightarrow> nat \<times> nat" where
  "adler32_step s c = (let a = (fst s + of_char c) mod 65521 in (a, (snd s + a) mod 65521))"

definition adler32_u :: "string \<Rightarrow> nat" where
  "adler32_u data = (let s = foldl adler32_step (1, 0) data in snd s * 65536 + fst s)"

definition adler32 :: "string \<Rightarrow> int" where
  "adler32 data =
     (let v = int (adler32_u data mod 2 ^ 32) in if v < 2 ^ 31 then v else v - 2 ^ 32)"

text \<open>
  \<^verbatim>\<open>struct.pack('i', x)\<close>: the four bytes of a C \<^verbatim>\<open>int\<close> in the byte order of the machine;
  \<^verbatim>\<open>struct.error\<close> when \<open>x\<close> is not a signed 32-bit value.
\<close>

datatype byteorder = Little | Big

definition struct_pack_i :: "byteorder \<Rightarrow> int \<Rightarrow> error + string" where
  "struct_pack_i bo x =
     (if - (2 ^ 31) \<le> x \<and> x < 2 ^ 31
      then let u = nat (x mod 2 ^ 32);
               le = [char_of u, char_of (u div 256), char_of (u div 65536), char_of (u div 16777216)]
           in Inr (case bo of Little \<Rightarrow> le | Big \<Rightarrow> rev le)
      else Inl StructError)"

text \<open>The class \<^verbatim>\<open>_InsecureAdlerCRC32Digest\<close>: one attribute \<^verbatim>\<open>val\<close>, the data seen so far.\<close>

record InsecureAdlerCRC32Digest =
  val :: string

definition digest_size :: nat where
  "digest_size = 4"

definition block_size :: nat where
  "block_size = 64"

definition digest_init :: "string \<Rightarrow> InsecureAdlerCRC32Digest" where
  "digest_init init = \<lparr>val = init\<rparr>"

definition copy :: "InsecureAdlerCRC32Digest \<Rightarrow> InsecureAdlerCRC32Digest" where
  "copy self = digest_init (val self)"

definition update :: "InsecureAdlerCRC32Digest \<Rightarrow> string \<Rightarrow> InsecureAdlerCRC32Digest" where
  "update self v = self\<lparr>val := val self @ v\<rparr>"

definition digest :: "byteorder \<Rightarrow> InsecureAdlerCRC32Digest \<Rightarrow> error + string" where
  "digest bo self = (let crc = adler32 (val self) in struct_pack_i bo crc)"

text \<open>
  A hashlib-like class as the libraries use it: a constructor, \<^verbatim>\<open>copy\<close>, \<^verbatim>\<open>update\<close>,
  \<^verbatim>\<open>digest\<close> and the two size attributes.
\<close>

record 'h hash_class =
  hc_new :: "string \<Rightarrow> 'h"
  hc_copy :: "'h \<Rightarrow> 'h"
  hc_update :: "'h \<Rightarrow> string \<Rightarrow> 'h"
  hc_digest :: "'h \<Rightarrow> error + string"
  hc_digest_size :: nat
  hc_block_size :: nat

definition InsecureAdlerCRC32Digest_class :: "byteorder \<Rightarrow> InsecureAdlerCRC32Digest hash_class" where
  "InsecureAdlerCRC32Digest_class bo =
     \<lparr>hc_new = digest_init, hc_copy = copy, hc_update = update, hc_digest = digest bo,
      hc_digest_size = digest_size, hc_block_size = block_size\<rparr>"

section \<open>Library functions the module calls\<close>

subsection \<open>hmac (Python 2.7)\<close>

definition translate_xor :: "nat \<Rightarrow> string \<Rightarrow> string" where
  "translate_xor k s = map (\<lambda>c. char_of ((of_char c :: nat) XOR k)) s"

text \<open>\<^verbatim>\<open>hmac.new(key, msg, digestmod).digest()\<close>, statement by statement.\<close>

definition hmac_digest :: "'h hash_class \<Rightarrow> string \<Rightarrow> string \<Rightarrow> error + string" where
  "hmac_digest dm key msg =
     (let outer = hc_new dm [];
          inner = hc_new dm [];
          blocksize = (if hc_block_size dm < 16 then 64 else hc_block_size dm)
      in case (if length key > blocksize then hc_digest dm (hc_new dm key) else Inr key) of
           Inl e \<Rightarrow> Inl e
         | Inr key1 \<Rightarrow>
             let key2 = key1 @ replicate (blocksize - length key1) (CHR 0x00);
                 outer = hc_update dm outer (translate_xor 0x5C key2);
                 inner = hc_update dm inner (translate_xor 0x36 key2);
                 inner = hc_update dm inner msg
             in case hc_digest dm inner of
                  Inl e \<Rightarrow> Inl e
                | Inr d \<Rightarrow> hc_digest dm (hc_update dm (hc_copy dm outer) d))"

subsection \<open>base64 and binascii (Python 2.7)\<close>

text \<open>The standard alphabet, as character arithmetic: A-Z, a-z, 0-9, \<open>+\<close>, \<open>/\<close>.\<close>

definition b64_char :: "nat \<Rightarrow> char" where
  "b64_char v =
     (if v < 26 then char_of (v + 65) else if v < 52 then char_of (v + 71)
      else if v < 62 then char_of (v - 4) else if v = 62 then CHR ''+'' else CHR ''/'')"

definition b64_index :: "char \<Rightarrow> nat option" where
  "b64_index c =
     (let n = of_char c :: nat
      in if 65 \<le> n \<and> n \<le> 90 then Some (n - 65)
         else if 97 \<le> n \<and> n \<le> 122 then Some (n - 71)
         else if 48 \<le> n \<and> n \<le> 57 then Some (n + 4)
         else if c = CHR ''+'' then Some 62
         else if c = CHR ''/'' then Some 63
         else None)"

text \<open>\<^verbatim>\<open>base64.b64encode\<close>: three bytes give four characters; a shorter tail is padded with \<open>=\<close>.\<close>

fun b64encode :: "string \<Rightarrow> string" where
  "b64encode (x # y # z # r) =
     (let a = of_char x :: nat; b = of_char y :: nat; c = of_char z :: nat
      in b64_char (a div 4) # b64_char ((a mod 4) * 16 + b div 16) #
         b64_char ((b mod 16) * 4 + c div 64) # b64_char (c mod 64) # b64encode r)"
| "b64encode [x, y] =
     (let a = of_char x :: nat; b = of_char y :: nat
      in [b64_char (a div 4), b64_char ((a mod 4) * 16 + b div 16), b64_char ((b mod 16) * 4),
          CHR ''=''])"
| "b64encode [x] =
     (let a = of_char x :: nat in [b64_char (a div 4), b64_char ((a mod 4) * 16), CHR ''='', CHR ''=''])"
| "b64encode [] = []"

definition urlsafe_encode_translation :: "char \<Rightarrow> char" where
  "urlsafe_encode_translation c = (if c = CHR ''+'' then CHR ''-'' else if c = CHR ''/'' then CHR ''_'' else c)"

definition urlsafe_decode_translation :: "char \<Rightarrow> char" where
  "urlsafe_decode_translation c = (if c = CHR ''-'' then CHR ''+'' else if c = CHR ''_'' then CHR ''/'' else c)"

definition urlsafe_b64encode :: "string \<Rightarrow> string" where
  "urlsafe_b64encode s = map urlsafe_encode_translation (b64encode s)"

text \<open>
  \<^verbatim>\<open>binascii.a2b_base64\<close>: characters outside the alphabet are skipped; each alphabet
  character shifts six bits in and a byte leaves when eight are there; a pad character ends
  the input when it stands where padding may stand; bits left over at the end of the input
  are an error ("Incorrect padding").
\<close>

fun find_valid :: "string \<Rightarrow> nat \<Rightarrow> char option" where
  "find_valid [] num = None"
| "find_valid (c # cs) num =
     (if (of_char c :: nat) \<le> 127 \<and> (c = CHR ''='' \<or> b64_index c \<noteq> None)
      then (if num = 0 then Some c else find_valid cs (num - 1))
      else find_valid cs num)"

fun a2b_loop :: "nat \<Rightarrow> nat \<Rightarrow> nat \<Rightarrow> string \<Rightarrow> error + string" where
  "a2b_loop leftchar leftbits quad_pos [] = (if leftbits \<noteq> 0 then Inl TypeError else Inr [])"
| "a2b_loop leftchar leftbits quad_pos (c # cs) =
     (if (of_char c :: nat) > 127 \<or> c = CHR 0x0D \<or> c = CHR 0x0A \<or> c = CHR '' ''
      then a2b_loop leftchar leftbits quad_pos cs
      else if c = CHR ''=''
      then (if quad_pos < 2 \<or> (quad_pos = 2 \<and> find_valid (c # cs) 1 \<noteq> Some (CHR ''=''))
            then a2b_loop leftchar leftbits quad_pos cs
            else Inr [])
      else case b64_index c of
             None \<Rightarrow> a2b_loop leftchar leftbits quad_pos cs
           | Some v \<Rightarrow>
               let quad_pos1 = (quad_pos + 1) mod 4;
                   leftchar1 = leftchar * 64 + v;
                   leftbits1 = leftbits + 6
               in if leftbits1 \<ge> 8
                  then (case a2b_loop (leftchar1 mod 2 ^ (leftbits1 - 8)) (leftbits1 - 8) quad_pos1 cs of
                          Inl e \<Rightarrow> Inl e
                        | Inr out \<Rightarrow> Inr (char_of (leftchar1 div 2 ^ (leftbits1 - 8)) # out))
                  else a2b_loop leftchar1 leftbits1 quad_pos1 cs)"

definition a2b_base64 :: "string \<Rightarrow> error + string" where
  "a2b_base64 s = a2b_loop 0 0 0 s"

definition urlsafe_b64decode :: "string \<Rightarrow> error + string" where
  "urlsafe_b64decode s = a2b_base64 (map urlsafe_decode_translation s)"

subsection \<open>itsdangerous: encoding and Signer\<close>

text \<open>\<^verbatim>\<open>base64_encode\<close> strips the padding; \<^verbatim>\<open>base64_decode\<close> puts it back before decoding.\<close>

definition base64_encode :: "string \<Rightarrow> string" where
  "base64_encode s = rev (dropWhile (\<lambda>c. c = CHR ''='') (rev (urlsafe_b64encode s)))"

definition base64_decode :: "string \<Rightarrow> error + string" where
  "base64_decode s = urlsafe_b64decode (s @ replicate ((4 - length s mod 4) mod 4) (CHR ''=''))"

text \<open>
  A \<^verbatim>\<open>Signer\<close> as \<^verbatim>\<open>_make_signer\<close> builds it: the key derivation is the default
  (\<^verbatim>\<open>django-concat\<close>), the algorithm is HMAC over the digest method, and the separator is
  the default one-character string \<^verbatim>\<open>"."\<close>, kept as a character.
\<close>

record 'h signer =
  secret_key :: string
  salt :: string
  sep :: char
  digest_method :: "'h hash_class"

definition Signer :: "string \<Rightarrow> string \<Rightarrow> 'h hash_class \<Rightarrow> 'h signer" where
  "Signer key slt dm = \<lparr>secret_key = key, salt = slt, sep = CHR ''.'', digest_method = dm\<rparr>"

definition derive_key :: "'h signer \<Rightarrow> error + string" where
  "derive_key self =
     hc_digest (digest_method self)
       (hc_new (digest_method self) (salt self @ ''signer'' @ secret_key self))"

text \<open>
  \<^verbatim>\<open>want_bytes\<close>: a unicode object is encoded in UTF-8, a byte string is left alone. Both are
  the content of the value.
\<close>

definition want_bytes :: "pystr \<Rightarrow> string" where
  "want_bytes s = content s"

definition get_signature :: "'h signer \<Rightarrow> pystr \<Rightarrow> error + string" where
  "get_signature self v =
     (let v = want_bytes v
      in case derive_key self of
           Inl e \<Rightarrow> Inl e
         | Inr key \<Rightarrow>
             (case hmac_digest (digest_method self) key v of
                Inl e \<Rightarrow> Inl e
              | Inr sig \<Rightarrow> Inr (base64_encode sig)))"

definition verify_signature :: "'h signer \<Rightarrow> string \<Rightarrow> string \<Rightarrow> error + bool" where
  "verify_signature self v sig =
     (case derive_key self of
        Inl e \<Rightarrow> Inl e
      | Inr key \<Rightarrow>
          (case base64_decode sig of
             Inl e \<Rightarrow> Inr False
           | Inr sig1 \<Rightarrow>
               (case hmac_digest (digest_method self) key v of
                  Inl e \<Rightarrow> Inl e
                | Inr expected \<Rightarrow> Inr (sig1 = expected))))"

definition unsign :: "'h signer \<Rightarrow> pystr \<Rightarrow> error + string" where
  "unsign self signed_value =
     (let signed_value = want_bytes signed_value
      in if sep self \<notin> set signed_value then Inl BadSignature
         else case rsplit1 (sep self) signed_value of
                [v, sig] \<Rightarrow>
                  (case verify_signature self v sig of
                     Inl e \<Rightarrow> Inl e
                   | Inr ok \<Rightarrow> if ok then Inr v else Inl BadSignature)
              | _ \<Rightarrow> Inl ValueError)"

subsection \<open>urllib (Python 2.7): quote and unquote\<close>

definition always_safe :: string where
  "always_safe = ''ABCDEFGHIJKLMNOPQRSTUVWXYZabcdefghijklmnopqrstuvwxyz0123456789_.-''"

definition hexdigit :: "nat \<Rightarrow> char" where
  "hexdigit n = (if n < 10 then char_of (n + 48) else char_of (n + 55))"

definition quoter :: "char \<Rightarrow> string" where
  "quoter c =
     (if c \<in> set always_safe \<or> c = CHR ''/'' then [c]
      else [CHR ''%'', hexdigit ((of_char c :: nat) div 16), hexdigit ((of_char c :: nat) mod 16)])"

definition quote :: "string \<Rightarrow> string" where
  "quote s = concat (map quoter s)"

definition unhex :: "char \<Rightarrow> nat option" where
  "unhex c =
     (let n = of_char c :: nat
      in if 48 \<le> n \<and> n \<le> 57 then Some (n - 48)
         else if 65 \<le> n \<and> n \<le> 70 then Some (n - 55)
         else if 97 \<le> n \<and> n \<le> 102 then Some (n - 87)
         else None)"

text \<open>
  \<^verbatim>\<open>unquote\<close> of a byte string: a \<open>%\<close> followed by two hexadecimal digits is the byte they
  name; any other \<open>%\<close> stays.
\<close>

fun unquote_str :: "string \<Rightarrow> string" where
  "unquote_str (p # a # b # r) =
     (if p = CHR ''%''
      then (case (unhex a, unhex b) of
              (Some h, Some l) \<Rightarrow> char_of (h * 16 + l) # unquote_str r
            | _ \<Rightarrow> p # unquote_str (a # b # r))
      else p # unquote_str (a # b # r))"
| "unquote_str s = s"

text \<open>
  \<^verbatim>\<open>unquote\<close> of a unicode object unquotes each run of ASCII characters as a byte string and
  decodes the result as Latin-1: a \<open>%\<close> followed by two hexadecimal digits is the character
  with that code point. \<open>utf8_latin1 n\<close> is the UTF-8 encoding of the code point \<open>n < 256\<close>.
\<close>

definition utf8_latin1 :: "nat \<Rightarrow> string" where
  "utf8_latin1 n = (if n < 128 then [char_of n] else [char_of (192 + n div 64), char_of (128 + n mod 64)])"

fun unquote_unicode :: "string \<Rightarrow> string" where
  "unquote_unicode (p # a # b # r) =
     (if p = CHR ''%''
      then (case (unhex a, unhex b) of
              (Some h, Some l) \<Rightarrow> utf8_latin1 (h * 16 + l) @ unquote_unicode r
            | _ \<Rightarrow> p # unquote_unicode (a # b # r))
      else p # unquote_unicode (a # b # r))"
| "unquote_unicode s = s"

fun unquote :: "pystr \<Rightarrow> pystr" where
  "unquote (Str s) = Str (unquote_str s)"
| "unquote (Unicode u) = Unicode (unquote_unicode u)"

subsection \<open>rfc822 (Python 2.7): the address parser\<close>

text \<open>
  \<^verbatim>\<open>rfc822.AddrlistClass\<close> keeps the header field, a position in it and a list of the
  comments seen. Each method is modelled as a function of the text from the position on and
  the comment list, returning what the method returns, the text left and the new comment list.
\<close>

definition specials :: string where
  "specials = [CHR ''('', CHR '')'', CHR ''<'', CHR ''>'', CHR ''@'', CHR '','', CHR '':'', CHR '';'',
               CHR ''.'', CHR 0x22, CHR ''['', CHR '']'']"

definition LWS :: string where
  "LWS = [CHR '' '', CHR 0x09]"

definition CR :: string where
  "CR = [CHR 0x0D, CHR 0x0A]"

definition atomends :: string where
  "atomends = specials @ LWS @ CR"

definition phraseends :: string where
  "phraseends = filter (\<lambda>c. c \<noteq> CHR ''.'') atomends"

text \<open>
  The loop of \<^verbatim>\<open>getdelimited\<close>, entered after the begin character; \<open>escaped\<close> is the
  flag the source calls \<^verbatim>\<open>quote\<close>. A nested comment is read
  by the same loop with the end characters of a comment; the loop then goes on from where the
  comment ended. The test on the length of the text left is there for the termination proof
  only: \<open>getdelimited_loop_length\<close> below shows that it always holds.
\<close>

function getdelimited_loop :: "string \<Rightarrow> bool \<Rightarrow> bool \<Rightarrow> string \<Rightarrow> string \<times> string" where
  "getdelimited_loop endchars allowcomments escaped [] = ([], [])"
| "getdelimited_loop endchars allowcomments escaped (c # r) =
     (if escaped
      then (let (t, r1) = getdelimited_loop endchars allowcomments False r in (c # t, r1))
      else if c \<in> set endchars then ([], r)
      else if allowcomments \<and> c = CHR ''(''
      then (let (t1, r1) = getdelimited_loop [CHR '')'', CHR 0x0D] True False r
            in if length r1 \<le> length r
               then (let (t2, r2) = getdelimited_loop endchars allowcomments False r1 in (t1 @ t2, r2))
               else (t1, []))
      else if c = CHR 0x5C then getdelimited_loop endchars allowcomments True r
      else (let (t, r1) = getdelimited_loop endchars allowcomments False r in (c # t, r1)))"
  by pat_completeness auto
termination
  by (relation "measure (\<lambda>(e, a, q, s). length s)") auto

text \<open>
  \<^verbatim>\<open>getdelimited\<close> returns the empty string when the text does not start with the begin
  character. Every caller has just seen the begin character, so the text is never empty there
  (an empty text would be an \<^verbatim>\<open>IndexError\<close> in Python).
\<close>

definition getdelimited :: "char \<Rightarrow> string \<Rightarrow> bool \<Rightarrow> string \<Rightarrow> string \<times> string" where
  "getdelimited beginchar endchars allowcomments s =
     (case s of
        [] \<Rightarrow> ([], [])
      | c # r \<Rightarrow> if c \<noteq> beginchar then ([], s) else getdelimited_loop endchars allowcomments False r)"

definition getquote :: "string \<Rightarrow> string \<times> string" where
  "getquote s = getdelimited (CHR 0x22) [CHR 0x22, CHR 0x0D] False s"

definition getcomment :: "string \<Rightarrow> string \<times> string" where
  "getcomment s = getdelimited (CHR ''('') [CHR '')'', CHR 0x0D] True s"

definition getdomainliteral :: "string \<Rightarrow> string \<times> string" where
  "getdomainliteral s =
     (let (t, r) = getdelimited (CHR ''['') [CHR '']'', CHR 0x0D] False s in (''['' @ t @ '']'', r))"

definition getatom :: "string \<Rightarrow> string \<Rightarrow> string \<times> string" where
  "getatom ends s = (takeWhile (\<lambda>c. c \<notin> set ends) s, dropWhile (\<lambda>c. c \<notin> set ends) s)"

text \<open>No fragment parser returns more text than it was given.\<close>

lemma getdelimited_loop_length:
  "length (snd (getdelimited_loop e a q s)) \<le> length s"
proof (induction e a q s rule: getdelimited_loop.induct)
  case (1 endchars allowcomments escaped)
  then show ?case by simp
next
  case (2 endchars allowcomments escaped c r)
  obtain t1 r1 where c1: "getdelimited_loop [CHR '')'', CHR 0x0D] True False r = (t1, r1)"
    by force
  show ?case
  proof (cases escaped)
    case True
    with 2(1) show ?thesis by (auto split: prod.splits)
  next
    case ne: False
    show ?thesis
    proof (cases "c \<in> set endchars")
      case True
      with ne show ?thesis by simp
    next
      case nend: False
      show ?thesis
      proof (cases "allowcomments \<and> c = CHR ''(''")
        case True
        have a: "length r1 \<le> length r"
          using 2(2) [OF ne nend True] c1 by simp
        have "length (snd (getdelimited_loop endchars allowcomments False r1)) \<le> length r1"
          using 2(3) [OF ne nend True c1 [symmetric] refl a] .
        with a ne nend True c1 show ?thesis
          by (auto split: prod.splits)
      next
        case nc: False
        show ?thesis
        proof (cases "c = CHR 0x5C")
          case True
          with 2(4) [OF ne nend nc] ne nend nc show ?thesis by (auto split: prod.splits)
        next
          case False
          with 2(5) [OF ne nend nc] ne nend nc show ?thesis
            by (auto split: prod.splits)
        qed
      qed
    qed
  qed
qed
lemma getdelimited_length: "length (snd (getdelimited b e a s)) \<le> length s"
  using getdelimited_loop_length
  by (auto simp: getdelimited_def le_SucI split: list.splits)

lemma getcomment_length:
  "getcomment (CHR ''('' # r) = (t, r1) \<Longrightarrow> length r1 \<le> length r"
  using getdelimited_loop_length [of "[CHR '')'', CHR 0x0D]" True False r]
  by (simp add: getcomment_def getdelimited_def)

lemma getquote_length:
  "getquote (CHR 0x22 # r) = (t, r1) \<Longrightarrow> length r1 \<le> length r"
  using getdelimited_loop_length [of "[CHR 0x22, CHR 0x0D]" False False r]
  by (simp add: getquote_def getdelimited_def)

lemma getdomainliteral_length:
  "getdomainliteral (CHR ''['' # r) = (t, r1) \<Longrightarrow> length r1 \<le> length r"
  using getdelimited_loop_length [of "[CHR '']'', CHR 0x0D]" False False r]
  by (auto simp add: getdomainliteral_def getdelimited_def split: prod.splits)

lemma getatom_length: "getatom ends s = (t, r1) \<Longrightarrow> length r1 \<le> length s"
  by (auto simp: getatom_def length_dropWhile_le)

text \<open>\<^verbatim>\<open>gotonext\<close>: skip white space and collect comments.\<close>

function gotonext :: "string \<Rightarrow> string list \<Rightarrow> string \<times> string list" where
  "gotonext [] commentlist = ([], commentlist)"
| "gotonext (c # r) commentlist =
     (if c \<in> set (LWS @ [CHR 0x0A, CHR 0x0D]) then gotonext r commentlist
      else if c = CHR ''(''
      then (let (t, r1) = getcomment (c # r) in gotonext r1 (commentlist @ [t]))
      else (c # r, commentlist))"
  by pat_completeness auto
termination
proof (relation "measure (\<lambda>(s, cl). length s)", goal_cases)
  case (3 c r commentlist x xa y)
  then have "length y \<le> length r" using getcomment_length [of r xa y] by simp
  then show ?case by simp
qed auto

lemma gotonext_length: "length (fst (gotonext s cl)) \<le> length s"
proof (induction s cl rule: gotonext.induct)
  case (1 commentlist)
  then show ?case by simp
next
  case (2 c r commentlist)
  obtain t r1 where g: "getcomment (c # r) = (t, r1)" by force
  show ?case
  proof (cases "c \<in> set (LWS @ [CHR 0x0A, CHR 0x0D])")
    case True
    with 2(1) show ?thesis by (simp add: le_SucI)
  next
    case nl: False
    show ?thesis
    proof (cases "c = CHR ''(''")
      case True
      have "length r1 \<le> length r" using g True getcomment_length by simp
      moreover have "length (fst (gotonext r1 (commentlist @ [t]))) \<le> length r1"
        using 2(2) [OF nl True g [symmetric] refl] .
      ultimately show ?thesis using nl True g by simp
    next
      case False
      with nl show ?thesis by simp
    qed
  qed
qed

lemma getatom_Cons_length:
  "c \<notin> set ends \<Longrightarrow> getatom ends (c # r) = (t, r1) \<Longrightarrow> length r1 \<le> length r"
  by (auto simp: getatom_def length_dropWhile_le)

text \<open>\<^verbatim>\<open>getphraselist\<close>: the words (atoms and quoted strings) up to the next special.\<close>

function getphraselist :: "string \<Rightarrow> string list \<Rightarrow> string list \<times> string \<times> string list" where
  "getphraselist [] commentlist = ([], [], commentlist)"
| "getphraselist (c # r) commentlist =
     (if c \<in> set LWS then getphraselist r commentlist
      else if c = CHR 0x22
      then (let (q, r1) = getquote (c # r);
                (plist, r2, cl2) = getphraselist r1 commentlist
            in (q # plist, r2, cl2))
      else if c = CHR ''(''
      then (let (t, r1) = getcomment (c # r) in getphraselist r1 (commentlist @ [t]))
      else if c \<in> set phraseends then ([], c # r, commentlist)
      else (let (a, r1) = getatom phraseends (c # r);
                (plist, r2, cl2) = getphraselist r1 commentlist
            in (a # plist, r2, cl2)))"
  by pat_completeness auto
termination
proof (relation "measure (\<lambda>(s, cl). length s)", goal_cases)
  case (3 c r commentlist x xa y)
  then show ?case using getquote_length [of r xa y] by simp
next
  case (4 c r commentlist x xa y)
  then show ?case using getcomment_length [of r xa y] by simp
next
  case (5 c r commentlist x xa y)
  then show ?case using getatom_Cons_length [of c phraseends r xa y] by simp
qed auto

text \<open>\<^verbatim>\<open>getdomain\<close>: atoms, dots and domain literals up to the next atom end.\<close>

function getdomain :: "string \<Rightarrow> string list \<Rightarrow> string \<times> string \<times> string list" where
  "getdomain [] commentlist = ([], [], commentlist)"
| "getdomain (c # r) commentlist =
     (if c \<in> set LWS then getdomain r commentlist
      else if c = CHR ''(''
      then (let (t, r1) = getcomment (c # r) in getdomain r1 (commentlist @ [t]))
      else if c = CHR ''[''
      then (let (d, r1) = getdomainliteral (c # r);
                (sd, r2, cl2) = getdomain r1 commentlist
            in (d @ sd, r2, cl2))
      else if c = CHR ''.''
      then (let (sd, r2, cl2) = getdomain r commentlist in (CHR ''.'' # sd, r2, cl2))
      else if c \<in> set atomends then ([], c # r, commentlist)
      else (let (a, r1) = getatom atomends (c # r);
                (sd, r2, cl2) = getdomain r1 commentlist
            in (a @ sd, r2, cl2)))"
  by pat_completeness auto
termination
proof (relation "measure (\<lambda>(s, cl). length s)", goal_cases)
  case (3 c r commentlist x xa y)
  then show ?case using getcomment_length [of r xa y] by simp
next
  case (4 c r commentlist x xa y)
  then show ?case using getdomainliteral_length [of r xa y] by simp
next
  case (6 c r commentlist x xa y)
  then show ?case using getatom_Cons_length [of c atomends r xa y] by simp
qed auto

lemma getphraselist_length: "length (fst (snd (getphraselist s cl))) \<le> length s"
proof (induction s cl rule: getphraselist.induct)
  case (1 commentlist)
  then show ?case by simp
next
  case (2 c r commentlist)
  obtain q rq where gq: "getquote (c # r) = (q, rq)" by force
  obtain t rc where gc: "getcomment (c # r) = (t, rc)" by force
  obtain a ra where ga: "getatom phraseends (c # r) = (a, ra)" by force
  consider (lws) "c \<in> set LWS"
    | (quote) "c \<notin> set LWS" "c = CHR 0x22"
    | (comment) "c \<notin> set LWS" "c \<noteq> CHR 0x22" "c = CHR ''(''"
    | (ends) "c \<notin> set LWS" "c \<noteq> CHR 0x22" "c \<noteq> CHR ''(''" "c \<in> set phraseends"
    | (atom) "c \<notin> set LWS" "c \<noteq> CHR 0x22" "c \<noteq> CHR ''(''" "c \<notin> set phraseends"
    by blast
  then show ?case
  proof cases
    case lws
    with 2(1) show ?thesis by (simp add: le_SucI)
  next
    case quote
    have "length rq \<le> length r" using gq quote getquote_length by simp
    moreover have "length (fst (snd (getphraselist rq commentlist))) \<le> length rq"
      using 2(2) [OF quote gq [symmetric] refl] .
    ultimately show ?thesis using quote gq by (auto split: prod.splits)
  next
    case comment
    have "length rc \<le> length r" using gc comment getcomment_length by simp
    moreover have "length (fst (snd (getphraselist rc (commentlist @ [t])))) \<le> length rc"
      using 2(3) [OF comment gc [symmetric] refl] .
    ultimately show ?thesis using comment gc by (auto split: prod.splits)
  next
    case ends
    then show ?thesis by simp
  next
    case atom
    have "length ra \<le> length r" using ga atom getatom_Cons_length by simp
    moreover have "length (fst (snd (getphraselist ra commentlist))) \<le> length ra"
      using 2(4) [OF atom ga [symmetric] refl] .
    ultimately show ?thesis using atom ga by (auto split: prod.splits)
  qed
qed

lemma getdomain_length: "length (fst (snd (getdomain s cl))) \<le> length s"
proof (induction s cl rule: getdomain.induct)
  case (1 commentlist)
  then show ?case by simp
next
  case (2 c r commentlist)
  obtain t rc where gc: "getcomment (c # r) = (t, rc)" by force
  obtain d rd where gd: "getdomainliteral (c # r) = (d, rd)" by force
  obtain a ra where ga: "getatom atomends (c # r) = (a, ra)" by force
  consider (lws) "c \<in> set LWS"
    | (comment) "c \<notin> set LWS" "c = CHR ''(''"
    | (literal) "c \<notin> set LWS" "c \<noteq> CHR ''(''" "c = CHR ''[''"
    | (dot) "c \<notin> set LWS" "c \<noteq> CHR ''(''" "c \<noteq> CHR ''[''" "c = CHR ''.''"
    | (ends) "c \<notin> set LWS" "c \<noteq> CHR ''(''" "c \<noteq> CHR ''[''" "c \<noteq> CHR ''.''"
        "c \<in> set atomends"
    | (atom) "c \<notin> set LWS" "c \<noteq> CHR ''(''" "c \<noteq> CHR ''[''" "c \<noteq> CHR ''.''"
        "c \<notin> set atomends"
    by blast
  then show ?case
  proof cases
    case lws
    with 2(1) show ?thesis by (simp add: le_SucI)
  next
    case comment
    have "length rc \<le> length r" using gc comment getcomment_length by simp
    moreover have "length (fst (snd (getdomain rc (commentlist @ [t])))) \<le> length rc"
      using 2(2) [OF comment gc [symmetric] refl] .
    ultimately show ?thesis using comment gc by (auto split: prod.splits)
  next
    case literal
    have "length rd \<le> length r" using gd literal getdomainliteral_length by simp
    moreover have "length (fst (snd (getdomain rd commentlist))) \<le> length rd"
      using 2(3) [OF literal gd [symmetric] refl] .
    ultimately show ?thesis using literal gd by (auto split: prod.splits)
  next
    case dot
    with 2(4) [OF dot] show ?thesis by (auto split: prod.splits)
  next
    case ends
    then show ?thesis by simp
  next
    case atom
    have "length ra \<le> length r" using ga atom getatom_Cons_length by simp
    moreover have "length (fst (snd (getdomain ra commentlist))) \<le> length ra"
      using 2(5) [OF atom ga [symmetric] refl] .
    ultimately show ?thesis using atom ga by (auto split: prod.splits)
  qed
qed

lemma gotonext_length': "gotonext s cl = (s1, cl1) \<Longrightarrow> length s1 \<le> length s"
  using gotonext_length [of s cl] by simp

text \<open>\<^verbatim>\<open>getaddrspec\<close>: the loop over the local part, then \<open>@\<close> and the domain when they follow.\<close>

function addrspec_loop :: "string \<Rightarrow> string list \<Rightarrow> string \<times> string \<times> string list" where
  "addrspec_loop [] commentlist = ([], [], commentlist)"
| "addrspec_loop (c # r) commentlist =
     (if c = CHR ''.''
      then (let (r1, cl1) = gotonext r commentlist;
                (aslist, r2, cl2) = addrspec_loop r1 cl1
            in (CHR ''.'' # aslist, r2, cl2))
      else if c = CHR 0x22
      then (let (q, r0) = getquote (c # r);
                (r1, cl1) = gotonext r0 commentlist;
                (aslist, r2, cl2) = addrspec_loop r1 cl1
            in ([CHR 0x22] @ q @ [CHR 0x22] @ aslist, r2, cl2))
      else if c \<in> set atomends then ([], c # r, commentlist)
      else (let (a, r0) = getatom atomends (c # r);
                (r1, cl1) = gotonext r0 commentlist;
                (aslist, r2, cl2) = addrspec_loop r1 cl1
            in (a @ aslist, r2, cl2)))"
  by pat_completeness auto
termination
proof (relation "measure (\<lambda>(s, cl). length s)", goal_cases)
  case (2 c r commentlist)
  then show ?case using gotonext_length [of r commentlist] by (auto split: prod.splits)
next
  case (3 c r commentlist x xa y)
  then show ?case
    using getquote_length [of r xa y] gotonext_length [of y commentlist]
    by (auto split: prod.splits)
next
  case (4 c r commentlist x xa y)
  then show ?case
    using getatom_Cons_length [of c atomends r xa y] gotonext_length [of y commentlist]
    by (auto split: prod.splits)
qed auto

definition getaddrspec :: "string \<Rightarrow> string list \<Rightarrow> string \<times> string \<times> string list" where
  "getaddrspec s commentlist =
     (let (s1, cl1) = gotonext s commentlist;
          (aslist, s2, cl2) = addrspec_loop s1 cl1
      in case s2 of
           [] \<Rightarrow> (aslist, s2, cl2)
         | c # r \<Rightarrow>
             if c \<noteq> CHR ''@'' then (aslist, s2, cl2)
             else (let (s3, cl3) = gotonext r cl2;
                       (domain, s4, cl4) = getdomain s3 cl3
                   in (aslist @ ''@'' @ domain, s4, cl4)))"

text \<open>
  \<^verbatim>\<open>getrouteaddr\<close>: the text between angle brackets, skipping a route. It is called at
  \<open><\<close> only; after the addr-spec the position moves on by one without a look at the character.
\<close>

function routeaddr_loop :: "bool \<Rightarrow> string \<Rightarrow> string list \<Rightarrow> string \<times> string \<times> string list" where
  "routeaddr_loop expectroute [] commentlist = ([], [], commentlist)"
| "routeaddr_loop expectroute (c # r) commentlist =
     (if expectroute
      then (let (d, r0, cl0) = getdomain (c # r) commentlist;
                (r1, cl1) = gotonext r0 cl0
            in routeaddr_loop False r1 cl1)
      else if c = CHR ''>'' then ([], r, commentlist)
      else if c = CHR ''@''
      then (let (r1, cl1) = gotonext r commentlist in routeaddr_loop True r1 cl1)
      else if c = CHR '':''
      then (let (r1, cl1) = gotonext r commentlist in routeaddr_loop False r1 cl1)
      else (let (adlist, r0, cl0) = getaddrspec (c # r) commentlist in (adlist, drop 1 r0, cl0)))"
  by pat_completeness auto
termination
proof (relation "measure (\<lambda>(e, s, cl). 2 * length s + (if e then 1 else 0))", goal_cases)
  case (2 expectroute c r commentlist x d y r0 cl0 xc r1 cl1)
  have "length r0 \<le> length (c # r)"
    using getdomain_length [of "c # r" commentlist] 2 by (metis fst_conv snd_conv)
  moreover have "length r1 \<le> length r0"
    using gotonext_length [of r0 cl0] 2 by (metis fst_conv)
  ultimately show ?case using 2(1) by simp
next
  case (3 expectroute c r commentlist x xa y)
  then show ?case using gotonext_length [of r commentlist] by (auto split: prod.splits)
next
  case (4 expectroute c r commentlist x xa y)
  then show ?case using gotonext_length [of r commentlist] by (auto split: prod.splits)
qed auto

definition getrouteaddr :: "string \<Rightarrow> string list \<Rightarrow> string \<times> string \<times> string list" where
  "getrouteaddr s commentlist =
     (case s of
        [] \<Rightarrow> ([], [], commentlist)
      | c # r \<Rightarrow>
          if c \<noteq> CHR ''<'' then ([], s, commentlist)
          else (let (r1, cl1) = gotonext r commentlist in routeaddr_loop False r1 cl1))"

definition join_space :: "string list \<Rightarrow> string" where
  "join_space xs = (case xs of [] \<Rightarrow> [] | x # r \<Rightarrow> x @ concat (map (\<lambda>y. CHR '' '' # y) r))"

text \<open>
  \<^verbatim>\<open>getaddress\<close> parses one address and returns the list of (realname, address) pairs it
  stands for with the text left. The source resets the position (\<^verbatim>\<open>self.pos = oldpos\<close>) before
  it reads an addr-spec; its \<^verbatim>\<open>self.commentlist = oldcl\<close> changes nothing, because
  \<^verbatim>\<open>oldcl\<close> is the very list that has been appended to since. \<open>getaddress_group\<close> is the
  loop over the members of a group; comments seen there are never read again, and the test on
  the length is there for the termination proof.
\<close>

function getaddress :: "string \<Rightarrow> (string \<times> string) list \<times> string"
  and getaddress_group :: "string \<Rightarrow> (string \<times> string) list \<times> string"
where
  "getaddress s =
     (let (s1, cl1) = gotonext s [];
          (plist, s2, cl2) = getphraselist s1 cl1;
          (s3, cl3) = gotonext s2 cl2;
          (returnlist, s4, cl4) =
            (case s3 of
               [] \<Rightarrow>
                 (case plist of [] \<Rightarrow> ([], s3, cl3) | p # _ \<Rightarrow> ([(join_space cl3, p)], s3, cl3))
             | c # r \<Rightarrow>
                 if c \<in> set ''.@''
                 then (let (addrspec, s', cl') = getaddrspec s1 cl3
                       in ([(join_space cl', addrspec)], s', cl'))
                 else if c = CHR '':''
                 then (let (rl, s') = getaddress_group r in (rl, s', cl3))
                 else if c = CHR ''<''
                 then (let (routeaddr, s', cl') = getrouteaddr s3 cl3
                       in (if cl' \<noteq> []
                           then [(join_space plist @ '' ('' @ join_space cl' @ '')'', routeaddr)]
                           else [(join_space plist, routeaddr)], s', cl'))
                 else (case plist of
                         p # _ \<Rightarrow> ([(join_space cl3, p)], s3, cl3)
                       | [] \<Rightarrow> if c \<in> set specials then ([], r, cl3) else ([], s3, cl3)));
          (s5, cl5) = gotonext s4 cl4
      in (returnlist, case s5 of [] \<Rightarrow> [] | c # r \<Rightarrow> if c = CHR '','' then r else s5))"
| "getaddress_group s =
     (if s = [] then ([], [])
      else (let (s1, cl1) = gotonext s []
            in if (case s1 of [] \<Rightarrow> False | c # r \<Rightarrow> c = CHR '';'') then ([], tl s1)
               else (let (ad, s2) = getaddress s1
                     in if length s2 < length s
                        then (let (rl, s3) = getaddress_group s2 in (ad @ rl, s3))
                        else (ad, []))))"
  by pat_completeness auto
termination
proof (relation "measure (\<lambda>x. case x of Inl s \<Rightarrow> 2 * length s | Inr s \<Rightarrow> 2 * length s + 1)", goal_cases)
  case 1
  show ?case by simp
next
  case (2 s x s1 cl1 xa plist y s2 cl2 xb s3 cl3 c r)
  have "length s1 \<le> length s" using gotonext_length [of s "[]"] 2 by (metis fst_conv)
  moreover have "length s2 \<le> length s1"
    using getphraselist_length [of s1 cl1] 2 by (metis fst_conv snd_conv)
  moreover have "length s3 \<le> length s2" using gotonext_length [of s2 cl2] 2 by (metis fst_conv)
  ultimately show ?case using 2 by simp
next
  case (3 s x s1 cl1)
  have "length s1 \<le> length s" using gotonext_length [of s "[]"] 3 by (metis fst_conv)
  then show ?case by simp
next
  case (4 s x s1 cl1 xa ad s2)
  then show ?case by simp
qed

text \<open>\<^verbatim>\<open>getaddrlist\<close>: addresses until \<^verbatim>\<open>getaddress\<close> returns an empty list.\<close>

function getaddrlist :: "string \<Rightarrow> (string \<times> string) list" where
  "getaddrlist s =
     (let (ad, r) = getaddress s
      in if ad = [] then []
         else if length r < length s then ad @ getaddrlist r
         else ad)"
  by pat_completeness auto
termination
  by (relation "measure length") auto

definition AddressList :: "string \<Rightarrow> (string \<times> string) list" where
  "AddressList field = (if field \<noteq> [] then getaddrlist field else [])"

text \<open>
  \<^verbatim>\<open>rfc822.parseaddr\<close>: the first address, or \<^verbatim>\<open>(None, None)\<close> (here \<open>None\<close>) when there is
  none. \<open>parseaddr_text\<close> is the parser on the characters. The two parts of the result are
  joined from slices of the argument and have its type. (A part that holds no character of a
  unicode argument is in Python a byte string of ASCII literals of the parser; it is taken as
  unicode here, which changes no later result.)
\<close>

definition parseaddr_text :: "string \<Rightarrow> (string \<times> string) option" where
  "parseaddr_text address = (case AddressList address of [] \<Rightarrow> None | x # _ \<Rightarrow> Some x)"

definition parseaddr :: "pystr \<Rightarrow> (pystr \<times> pystr) option" where
  "parseaddr address =
     map_option (\<lambda>(realname, addr). (like address realname, like address addr))
       (parseaddr_text (content address))"

text \<open>
  \<^verbatim>\<open>rfc822.dump_address_pair\<close>: \<^verbatim>\<open>'"' + pair[0] + '" <' + pair[1] + '>'\<close> when there is a
  name, else the address. \<open>dump_text\<close> is the text of the result.
\<close>

definition dump_address_pair :: "pystr \<times> pystr \<Rightarrow> error + pystr" where
  "dump_address_pair pair =
     (if content (fst pair) \<noteq> []
      then py_sum (Str [CHR 0x22]) [fst pair, Str ([CHR 0x22] @ '' <''), snd pair, Str ''>'']
      else Inr (snd pair))"

definition dump_text :: "string \<times> string \<Rightarrow> string" where
  "dump_text pair =
     (if fst pair \<noteq> [] then [CHR 0x22] @ fst pair @ [CHR 0x22] @ '' <'' @ snd pair @ ''>''
      else snd pair)"

section \<open>The module \<^verbatim>\<open>nti.mailer._verp\<close>\<close>

text \<open>
  What the module reads from its surroundings is a parameter of the model: the registered
  \<^verbatim>\<open>IMailerPolicy\<close> utility (or none), the adapters \<^verbatim>\<open>IEmailAddressable\<close> and
  \<^verbatim>\<open>IPrincipal\<close> over recipients of any type \<open>'r\<close>, and the byte order of the machine.
  A principal is its attribute \<^verbatim>\<open>id\<close>, a unicode object, held as the bytes of its UTF-8
  encoding. A secret key is held as the bytes \<^verbatim>\<open>Signer\<close> keeps of it (\<^verbatim>\<open>want_bytes\<close>). The
  \<^verbatim>\<open>request\<close> arguments are passed along and never read; they are left out.

  Names that start with an underscore lose it: \<open>get_signer_secret\<close> is
  \<^verbatim>\<open>_get_signer_secret\<close>, \<open>make_signer\<close> is \<^verbatim>\<open>_make_signer\<close>, \<open>make_signer'\<close> is
  \<^verbatim>\<open>__make_signer\<close> and \<open>sign\<close> is \<^verbatim>\<open>_sign\<close>.
\<close>

record policy =
  policy_get_signer_secret :: string
  policy_get_default_sender :: "pystr option"

record principal =
  principal_id :: string

record 'r env =
  queryUtility_IMailerPolicy :: "policy option"
  IEmailAddressable :: "'r \<Rightarrow> bool"
  IPrincipal :: "'r \<Rightarrow> principal option"
  sys_byteorder :: byteorder

definition get_signer_secret :: "'r env \<Rightarrow> string \<Rightarrow> string" where
  "get_signer_secret env default_secret =
     (case queryUtility_IMailerPolicy env of
        Some policy \<Rightarrow> policy_get_signer_secret policy
      | None \<Rightarrow> default_secret)"

definition make_signer :: "'r env \<Rightarrow> string \<Rightarrow> string \<Rightarrow> 'h hash_class \<Rightarrow> 'h signer" where
  "make_signer env default_key slt dm =
     (let secret = get_signer_secret env default_key in Signer secret slt dm)"

definition get_default_sender :: "'r env \<Rightarrow> pystr option" where
  "get_default_sender env =
     (case queryUtility_IMailerPolicy env of
        Some policy \<Rightarrow> policy_get_default_sender policy
      | None \<Rightarrow> None)"

text \<open>\<^verbatim>\<open>_find_default_realname\<close>; the literal \<^verbatim>\<open>"NextThought"\<close> is a unicode object.\<close>

definition find_default_realname :: "'r env \<Rightarrow> pystr" where
  "find_default_realname env =
     (let realname =
        (case get_default_sender env of
           None \<Rightarrow> None
         | Some default_sender \<Rightarrow>
             if content default_sender = [] then None
             else (case parseaddr default_sender of
                     None \<Rightarrow> None
                   | Some (realname, _) \<Rightarrow> Some (strip realname)))
      in case realname of
           None \<Rightarrow> Unicode ''NextThought''
         | Some r \<Rightarrow> if content r = [] then Unicode ''NextThought'' else r)"

text \<open>
  \<^verbatim>\<open>__make_signer\<close>: an absent or empty key leaves every default of \<^verbatim>\<open>_make_signer\<close> in
  place. Both callers pass no further keyword argument, so the salt and the digest method are
  the defaults.
\<close>

definition make_signer' :: "'r env \<Rightarrow> string option \<Rightarrow> InsecureAdlerCRC32Digest signer" where
  "make_signer' env default_key =
     (if default_key = None \<or> default_key = Some []
      then make_signer env ''$Id$'' ''email recipient''
             (InsecureAdlerCRC32Digest_class (sys_byteorder env))
      else make_signer env (the default_key) ''email recipient''
             (InsecureAdlerCRC32Digest_class (sys_byteorder env)))"

text \<open>
  \<^verbatim>\<open>_sign\<close> is given a byte string. The quoted ids, the separator and the signature are byte
  strings, and so is the result.
\<close>

definition sign :: "'h signer \<Rightarrow> string \<Rightarrow> error + string" where
  "sign signer principal_ids =
     (case get_signature signer (Str principal_ids) of
        Inl e \<Rightarrow> Inl e
      | Inr sig \<Rightarrow> Inr (quote principal_ids @ [sep signer] @ sig))"

definition realname_from_recipients :: "'r env \<Rightarrow> pystr \<Rightarrow> 'r list \<Rightarrow> error + pystr" where
  "realname_from_recipients env fromaddr recipients =
     (case parseaddr fromaddr of
        None \<Rightarrow> Inl ValueError
      | Some (realname, addr) \<Rightarrow>
          if content realname = [] \<and> content addr = [] then Inl ValueError
          else dump_address_pair
                 (if content realname = [] then find_default_realname env else realname, addr))"

text \<open>
  \<^verbatim>\<open>verp_from_recipients\<close>. The set of principal ids is a list without repetitions; its
  length is the size of the set. When the formatted sender does not parse, \<^verbatim>\<open>realname\<close> and
  \<^verbatim>\<open>addr\<close> are both \<^verbatim>\<open>None\<close>: \<^verbatim>\<open>addr.split\<close> is then an \<^verbatim>\<open>AttributeError\<close>, and
  \<^verbatim>\<open>dump_address_pair\<close> returns \<^verbatim>\<open>None\<close>, the result \<open>Inr None\<close>. Unpacking
  \<^verbatim>\<open>addr.split('@')\<close> into two names is a \<^verbatim>\<open>ValueError\<close> unless there are two pieces.
\<close>

definition principal_ids_of :: "'r env \<Rightarrow> 'r list \<Rightarrow> string list" where
  "principal_ids_of env recipients =
     (let adaptable_to_email_addressable = filter (IEmailAddressable env) recipients;
          principals = remdups (List.map_filter (IPrincipal env) adaptable_to_email_addressable)
      in remdups (map principal_id principals))"

definition verp_from_recipients ::
  "'r env \<Rightarrow> pystr \<Rightarrow> 'r list \<Rightarrow> string option \<Rightarrow> error + pystr option" where
  "verp_from_recipients env fromaddr recipients default_key =
     (case realname_from_recipients env fromaddr recipients of
        Inl e \<Rightarrow> Inl e
      | Inr realname \<Rightarrow>
          let parsed = parseaddr realname;
              principal_ids = principal_ids_of env recipients
          in if length principal_ids = 1
             then (let principal_id = principal_ids ! 0;
                       signer = make_signer' env default_key
                   in case sign signer principal_id of
                        Inl e \<Rightarrow> Inl e
                      | Inr principal_id \<Rightarrow>
                          (case parsed of
                             None \<Rightarrow> Inl AttributeError
                           | Some (realname, addr) \<Rightarrow>
                               (case split_u (CHR ''@'') addr of
                                  Inl e \<Rightarrow> Inl e
                                | Inr [local, domain] \<Rightarrow>
                                    (case py_sum local
                                            [Unicode ''+'', Str principal_id, Unicode ''@'', domain] of
                                       Inl e \<Rightarrow> Inl e
                                     | Inr addr \<Rightarrow>
                                         map_sum id Some (dump_address_pair (realname, addr)))
                                | Inr _ \<Rightarrow> Inl ValueError)))
             else (case parsed of
                     None \<Rightarrow> Inr None
                   | Some pair \<Rightarrow> map_sum id Some (dump_address_pair pair)))"

text \<open>
  \<^verbatim>\<open>principal_ids_from_verp\<close>, in two parts: \<open>principal_ids_from_addr\<close> is the text of the
  function from the comment "Split on our last '+'" to its end, with the signer as an
  argument. The separators \<^verbatim>\<open>b'+'\<close>, \<^verbatim>\<open>b'@'\<close> and \<^verbatim>\<open>signer.sep\<close> are byte strings: the
  pieces they cut have the type of the address. \<^verbatim>\<open>unsign\<close> returns a byte string, which
  \<^verbatim>\<open>pids.split(',')\<close> splits at a unicode literal. Of the exceptions \<^verbatim>\<open>unsign\<close> can raise
  only \<^verbatim>\<open>BadSignature\<close> is caught. The empty tuple and the list of ids are both lists here.
\<close>

definition principal_ids_from_addr :: "'h signer \<Rightarrow> pystr \<Rightarrow> error + pystr list" where
  "principal_ids_from_addr signer addr =
     (case rsplit1 (CHR ''+'') (content addr) of
        [_, after_plus] \<Rightarrow>
          (case split_char (CHR ''@'') after_plus of
             [] \<Rightarrow> Inl IndexError
           | signed_and_encoded # _ \<Rightarrow>
               if sep signer \<notin> set signed_and_encoded then Inr []
               else (case rsplit1 (sep signer) signed_and_encoded of
                       [encoded_pids, sig] \<Rightarrow>
                         (let decoded_pids = unquote (like addr encoded_pids)
                          in case py_sum decoded_pids [Str [sep signer], like addr sig] of
                               Inl e \<Rightarrow> Inl e
                             | Inr signed \<Rightarrow>
                                 (case unsign signer signed of
                                    Inl e \<Rightarrow> if e = BadSignature then Inr [] else Inl e
                                  | Inr pids \<Rightarrow> split_u (CHR '','') (Str pids)))
                     | _ \<Rightarrow> Inl ValueError))
      | _ \<Rightarrow> Inl IndexError)"

definition principal_ids_from_verp ::
  "'r env \<Rightarrow> pystr \<Rightarrow> string option \<Rightarrow> error + pystr list" where
  "principal_ids_from_verp env fromaddr default_key =
     (if content fromaddr = [] then Inr []
      else (case contains_u (CHR ''+'') fromaddr of
              Inl e \<Rightarrow> Inl e
            | Inr False \<Rightarrow> Inr []
            | Inr True \<Rightarrow>
                (case parseaddr fromaddr of
                   None \<Rightarrow> Inl TypeError
                 | Some (_, addr) \<Rightarrow>
                     (case contains_u (CHR ''+'') addr of
                        Inl e \<Rightarrow> Inl e
                      | Inr False \<Rightarrow> Inr []
                      | Inr True \<Rightarrow> principal_ids_from_addr (make_signer' env default_key) addr))))"

text \<open>
  The surroundings used for concrete runs: no mailer policy is registered, every recipient is
  a string that adapts to a principal with that string as its id, and the machine is
  little-endian.
\<close>

definition env0 :: "string env" where
  "env0 = \<lparr>queryUtility_IMailerPolicy = None, IEmailAddressable = (\<lambda>r. True),
           IPrincipal = (\<lambda>r. Some \<lparr>principal_id = r\<rparr>), sys_byteorder = Little\<rparr>"

text \<open>
  Two predicates for the proofs about base64: a text made of alphabet characters only, and
  an encoder output split into its alphabet characters and its padding.
\<close>

definition b64_chars :: "string \<Rightarrow> bool" where
  "b64_chars body = (\<forall>c\<in>set body. \<exists>v<64. c = b64_char v)"

definition b64_shape :: "string \<Rightarrow> string \<Rightarrow> nat \<Rightarrow> bool" where
  "b64_shape t body k = (t = body @ replicate k (CHR ''='') \<and> b64_chars body \<and> k \<le> 2 \<and>
     (length body + k) mod 4 = 0)"

text \<open>
  Two predicates for the proofs about the address parser: a text of atoms and dots (no white
  space and no RFC 822 special but the dot), and a display name that needs no escaping inside
  double quotes.
\<close>

definition dot_atom :: "string \<Rightarrow> bool" where
  "dot_atom s = list_all (\<lambda>c. c = CHR ''.'' \<or> c \<notin> set atomends) s"

definition quotable :: "string \<Rightarrow> bool" where
  "quotable s = list_all (\<lambda>c. c \<noteq> CHR 0x22 \<and> c \<noteq> CHR 0x5C \<and> c \<noteq> CHR 0x0D) s"

section \<open>The digest primitive never fails\<close>

lemma val_foldl_update: "val (foldl update d vs) = val d @ concat vs"
  by (induction vs arbitrary: d) (simp_all add: update_def)

lemma adler32_range: "- (2 ^ 31) \<le> adler32 data \<and> adler32 data < 2 ^ 31"
proof -
  have "int (adler32_u data mod 2 ^ 32) < 2 ^ 32"
    by (metis of_nat_less_iff of_nat_numeral of_nat_power mod_less_divisor zero_less_numeral zero_less_power)
  moreover have "0 \<le> int (adler32_u data mod 2 ^ 32)" by simp
  ultimately show ?thesis unfolding adler32_def Let_def by auto
qed

lemma struct_pack_i_length: "struct_pack_i bo x = Inr bs \<Longrightarrow> length bs = 4"
  by (cases bo) (auto simp: struct_pack_i_def Let_def split: if_splits)

lemma struct_pack_i_adler32: "\<exists>bs. struct_pack_i bo (adler32 data) = Inr bs \<and> length bs = 4"
proof -
  have "\<exists>bs. struct_pack_i bo (adler32 data) = Inr bs"
    using adler32_range [of data] by (simp add: struct_pack_i_def Let_def)
  then show ?thesis using struct_pack_i_length by blast
qed

lemma digest_Inr: "\<exists>bs. digest bo d = Inr bs \<and> length bs = 4"
  using struct_pack_i_adler32 by (simp add: digest_def)

text \<open>
  C7. Whatever the initial data and the sequence of \<^verbatim>\<open>update\<close> calls, \<^verbatim>\<open>digest\<close> returns
  (it does not raise), the result has \<open>digest_size\<close> = 4 bytes, and it is the Adler-32
  checksum of all the data seen, packed as a machine integer. The checksum is the signed
  32-bit value Python 2 returns, which always fits the format \<^verbatim>\<open>'i'\<close>.
\<close>

theorem digest_returns_four_bytes:
  "\<exists>bs. digest bo (foldl update (digest_init init) vs) = Inr bs \<and> length bs = digest_size \<and>
        struct_pack_i bo (adler32 (init @ concat vs)) = Inr bs"
proof -
  have v: "val (foldl update (digest_init init) vs) = init @ concat vs"
    by (simp add: val_foldl_update digest_init_def)
  obtain bs where "struct_pack_i bo (adler32 (init @ concat vs)) = Inr bs" "length bs = 4"
    using struct_pack_i_adler32 by blast
  then show ?thesis by (simp add: digest_def v digest_size_def)
qed

section \<open>Splitting strings\<close>

declare split_char.simps [simp del]

lemma dropWhile_neq_notin: "c \<notin> set a \<Longrightarrow> dropWhile (\<lambda>x. x \<noteq> c) a = []"
  by (induction a) auto

lemma takeWhile_neq_notin: "c \<notin> set a \<Longrightarrow> takeWhile (\<lambda>x. x \<noteq> c) a = a"
  by (induction a) auto

lemma split_char_notin: "c \<notin> set a \<Longrightarrow> split_char c a = [a]"
  by (subst split_char.simps) (simp add: dropWhile_neq_notin takeWhile_neq_notin)

lemma takeWhile_neq_append: "c \<notin> set a \<Longrightarrow> takeWhile (\<lambda>x. x \<noteq> c) (a @ c # b) = a"
  by (induction a) auto

lemma dropWhile_neq_append: "c \<notin> set a \<Longrightarrow> dropWhile (\<lambda>x. x \<noteq> c) (a @ c # b) = c # b"
  by (induction a) auto

lemma split_char_append:
  "c \<notin> set a \<Longrightarrow> split_char c (a @ c # b) = a # split_char c b"
  by (subst split_char.simps) (simp add: takeWhile_neq_append dropWhile_neq_append)

lemma rsplit1_append: "c \<notin> set b \<Longrightarrow> rsplit1 c (a @ c # b) = [a, b]"
proof -
  assume b: "c \<notin> set b"
  then have b': "c \<notin> set (rev b)" by simp
  have r: "rev (a @ c # b) = rev b @ c # rev a" by simp
  show ?thesis
    unfolding rsplit1_def r
    by (simp add: takeWhile_neq_append [OF b'] dropWhile_neq_append [OF b'])
qed

lemma rsplit1_notin: "c \<notin> set s \<Longrightarrow> rsplit1 c s = [s]"
  by (simp add: rsplit1_def)

lemma rsplit1_in:
  "c \<in> set s \<Longrightarrow> \<exists>a b. rsplit1 c s = [a, b] \<and> s = a @ c # b \<and> c \<notin> set b"
proof -
  assume "c \<in> set s"
  then have "c \<in> set (rev s)" by simp
  then obtain ys zs where yz: "rev s = ys @ c # zs" "c \<notin> set ys"
    by (meson split_list_first)
  have "rev (rev s) = rev (ys @ c # zs)" using yz(1) by simp
  then have s: "s = rev zs @ c # rev ys" by simp
  have n: "c \<notin> set (rev ys)" using yz by simp
  have "rsplit1 c (rev zs @ c # rev ys) = [rev zs, rev ys]" using n by (rule rsplit1_append)
  with s n show ?thesis by blast
qed

lemma split_char_nonempty: "split_char c s \<noteq> []"
  by (subst split_char.simps) simp

lemma count_list_takeWhile_neq: "count_list (takeWhile (\<lambda>x. x \<noteq> c) s) c = 0"
  by (induction s) auto

lemma length_split_char: "length (split_char c s) = Suc (count_list s c)"
proof (induction c s rule: split_char.induct)
  case (1 c s)
  show ?case
  proof (cases "dropWhile (\<lambda>x. x \<noteq> c) s")
    case Nil
    then have "\<forall>x\<in>set s. x \<noteq> c" by (simp add: dropWhile_eq_Nil_conv)
    then have "c \<notin> set s" by blast
    then have "count_list s c = 0" by (simp add: count_list_0_iff)
    then show ?thesis by (subst split_char.simps) (simp add: Nil)
  next
    case (Cons x r)
    have "\<not> (hd (dropWhile (\<lambda>x. x \<noteq> c) s) \<noteq> c)"
      by (rule hd_dropWhile) (simp add: Cons)
    then have x: "x = c" using Cons by simp
    have "takeWhile (\<lambda>x. x \<noteq> c) s @ dropWhile (\<lambda>x. x \<noteq> c) s = s"
      by (rule takeWhile_dropWhile_id)
    then have s: "s = takeWhile (\<lambda>x. x \<noteq> c) s @ c # r"
      using Cons x by simp
    have "count_list s c = count_list (takeWhile (\<lambda>x. x \<noteq> c) s @ c # r) c"
      using s by simp
    also have "\<dots> = Suc (count_list r c)"
      by (simp add: count_list_takeWhile_neq)
    finally have c: "count_list s c = Suc (count_list r c)" .
    have "length (split_char c r) = Suc (count_list r c)"
      using 1 [OF Cons] .
    with c show ?thesis by (subst split_char.simps) (simp add: Cons)
  qed
qed

section \<open>Percent-encoding round trip\<close>

lemma unquote_Cons:
  assumes "p \<noteq> CHR ''%''"
  shows "unquote_str (p # r) = p # unquote_str r"
proof (cases r)
  case Nil
  then show ?thesis by simp
next
  case (Cons a r1)
  note c1 = Cons
  show ?thesis
  proof (cases r1)
    case Nil
    with c1 show ?thesis by simp
  next
    case (Cons b r2)
    with c1 assms show ?thesis by simp
  qed
qed

lemma of_char_lt_256: "(of_char c :: nat) < 256"
  by (metis of_char_mod_256 mod_less_divisor zero_less_numeral)

lemma unhex_hexdigit: "n < 16 \<Longrightarrow> unhex (hexdigit n) = Some n"
  by (auto simp: unhex_def hexdigit_def Let_def)

lemma char_of_div_mod: "char_of ((of_char c :: nat) div 16 * 16 + of_char c mod 16) = c"
  by simp

lemma unquote_quoter: "unquote_str (quoter c @ r) = c # unquote_str r"
proof (cases "c \<in> set always_safe \<or> c = CHR ''/''")
  case True
  then have "c \<noteq> CHR ''%''" by (auto simp: always_safe_def)
  with True show ?thesis by (simp add: quoter_def unquote_Cons)
next
  case False
  have "(of_char c :: nat) div 16 < 16" using of_char_lt_256 [of c] by arith
  moreover have "(of_char c :: nat) mod 16 < 16" by simp
  ultimately show ?thesis using False
    by (simp add: quoter_def unhex_hexdigit)
qed

lemma unquote_quote: "unquote_str (quote s) = s"
  by (induction s) (simp_all add: quote_def unquote_quoter)

lemma of_char_hexdigit:
  "n < 16 \<Longrightarrow> (of_char (hexdigit n) :: nat) = (if n < 10 then n + 48 else n + 55)"
  by (simp add: hexdigit_def)

lemma hexdigit_neq:
  assumes "n < 16" and "(of_char c :: nat) < 48 \<or> (of_char c :: nat) = 64"
  shows "hexdigit n \<noteq> c"
proof
  assume "hexdigit n = c"
  then have "(of_char c :: nat) = (if n < 10 then n + 48 else n + 55)"
    using of_char_hexdigit [OF assms(1)] by simp
  with assms show False by (auto split: if_splits)
qed

lemma quoter_excludes:
  assumes "c0 \<notin> set always_safe" and "c0 \<noteq> CHR ''/''" and "c0 \<noteq> CHR ''%''"
    and "(of_char c0 :: nat) < 48 \<or> (of_char c0 :: nat) = 64"
  shows "c0 \<notin> set (quoter c)"
proof (cases "c \<in> set always_safe \<or> c = CHR ''/''")
  case True
  with assms show ?thesis by (auto simp: quoter_def)
next
  case False
  have "(of_char c :: nat) div 16 < 16" using of_char_lt_256 [of c] by arith
  then have a: "hexdigit ((of_char c :: nat) div 16) \<noteq> c0" using assms(4) by (rule hexdigit_neq)
  have "(of_char c :: nat) mod 16 < 16" by simp
  then have b: "hexdigit ((of_char c :: nat) mod 16) \<noteq> c0" using assms(4) by (rule hexdigit_neq)
  from a b False assms(3) show ?thesis by (auto simp: quoter_def)
qed

lemma quote_no_plus: "CHR ''+'' \<notin> set (quote s)"
proof -
  have "CHR ''+'' \<notin> set (quoter c)" for c
    by (rule quoter_excludes) (simp_all add: always_safe_def)
  then show ?thesis by (simp add: quote_def)
qed

lemma quote_no_at: "CHR ''@'' \<notin> set (quote s)"
proof -
  have "CHR ''@'' \<notin> set (quoter c)" for c
    by (rule quoter_excludes) (simp_all add: always_safe_def)
  then show ?thesis by (simp add: quote_def)
qed

section \<open>Base64 round trip\<close>

lemma of_char_b64_char:
  "v < 64 \<Longrightarrow> (of_char (b64_char v) :: nat) =
     (if v < 26 then v + 65 else if v < 52 then v + 71 else if v < 62 then v - 4
      else if v = 62 then 43 else 47)"
  by (simp add: b64_char_def)

lemma b64_char_neq:
  assumes "v < 64"
    and "(of_char c :: nat) < 43 \<or> (of_char c :: nat) \<in> {44, 45, 46, 58, 59, 60, 61, 62, 63, 64, 95}"
  shows "b64_char v \<noteq> c"
proof
  assume "b64_char v = c"
  then have "(of_char c :: nat) = (if v < 26 then v + 65 else if v < 52 then v + 71 else if v < 62 then v - 4
      else if v = 62 then 43 else 47)"
    using of_char_b64_char [OF assms(1)] by simp
  with assms show False by (auto split: if_splits)
qed

lemma b64_index_b64_char: "v < 64 \<Longrightarrow> b64_index (b64_char v) = Some v"
proof -
  assume v: "v < 64"
  show ?thesis
  proof (cases "v < 62")
    case True
    then show ?thesis
      using of_char_b64_char [OF v] by (auto simp: b64_index_def Let_def)
  next
    case False
    with v have "v = 62 \<or> v = 63" by arith
    then show ?thesis by (auto simp: b64_index_def b64_char_def Let_def)
  qed
qed

lemma a2b_loop_b64_char:
  assumes "v < 64"
  shows "a2b_loop leftchar leftbits quad_pos (b64_char v # cs) =
     (let quad_pos1 = (quad_pos + 1) mod 4;
          leftchar1 = leftchar * 64 + v;
          leftbits1 = leftbits + 6
      in if leftbits1 \<ge> 8
         then (case a2b_loop (leftchar1 mod 2 ^ (leftbits1 - 8)) (leftbits1 - 8) quad_pos1 cs of
                 Inl e \<Rightarrow> Inl e
               | Inr out \<Rightarrow> Inr (char_of (leftchar1 div 2 ^ (leftbits1 - 8)) # out))
         else a2b_loop leftchar1 leftbits1 quad_pos1 cs)"
proof -
  have a: "\<not> (of_char (b64_char v) :: nat) > 127"
    using of_char_b64_char [OF assms] assms by (auto split: if_splits)
  have b: "b64_char v \<noteq> CHR 0x0D" "b64_char v \<noteq> CHR 0x0A" "b64_char v \<noteq> CHR '' ''"
    "b64_char v \<noteq> CHR ''=''"
    by (rule b64_char_neq [OF assms], simp)+
  show ?thesis
    using a b by (simp add: b64_index_b64_char [OF assms])
qed

lemma b64_t16: fixes b :: nat shows "b < 256 \<Longrightarrow> b div 16 < 16"
  by (simp add: less_mult_imp_div_less)
lemma b64_v0: fixes a :: nat shows "a < 256 \<Longrightarrow> a div 4 < 64"
  by (simp add: less_mult_imp_div_less)
lemma b64_t4: fixes c :: nat shows "c < 256 \<Longrightarrow> c div 64 < 4"
  by (simp add: less_mult_imp_div_less)
lemma b64_e1: fixes a t :: nat assumes "t < 16" shows "(a div 4 * 64 + (a mod 4 * 16 + t)) div 16 = a" 
proof -
  have "a * 16 = (a div 4 * 4 + a mod 4) * 16" by (simp only: div_mult_mod_eq)
  also have "\<dots> = a div 4 * 64 + a mod 4 * 16"
    by (simp only: add_mult_distrib mult.assoc)
  finally have k: "a div 4 * 64 + (a mod 4 * 16 + t) = t + a * 16" by simp
  show ?thesis by (simp only: k) (simp add: assms)
qed
lemma b64_e2: fixes a t :: nat assumes "t < 16" shows "(a div 4 * 64 + (a mod 4 * 16 + t)) mod 16 = t" 
proof -
  have "a * 16 = (a div 4 * 4 + a mod 4) * 16" by (simp only: div_mult_mod_eq)
  also have "\<dots> = a div 4 * 64 + a mod 4 * 16"
    by (simp only: add_mult_distrib mult.assoc)
  finally have k: "a div 4 * 64 + (a mod 4 * 16 + t) = t + a * 16" by simp
  show ?thesis by (simp only: k) (simp add: assms)
qed
lemma b64_e3: fixes b t :: nat assumes "t < 4" shows "(b div 16 * 64 + (b mod 16 * 4 + t)) div 4 = b" 
proof -
  have "b * 4 = (b div 16 * 16 + b mod 16) * 4" by (simp only: div_mult_mod_eq)
  also have "\<dots> = b div 16 * 64 + b mod 16 * 4"
    by (simp only: add_mult_distrib mult.assoc)
  finally have k: "b div 16 * 64 + (b mod 16 * 4 + t) = t + b * 4" by simp
  show ?thesis by (simp only: k) (simp add: assms)
qed
lemma b64_e4: fixes b t :: nat assumes "t < 4" shows "(b div 16 * 64 + (b mod 16 * 4 + t)) mod 4 = t" 
proof -
  have "b * 4 = (b div 16 * 16 + b mod 16) * 4" by (simp only: div_mult_mod_eq)
  also have "\<dots> = b div 16 * 64 + b mod 16 * 4"
    by (simp only: add_mult_distrib mult.assoc)
  finally have k: "b div 16 * 64 + (b mod 16 * 4 + t) = t + b * 4" by simp
  show ?thesis by (simp only: k) (simp add: assms)
qed
lemma b64_v1: fixes a t :: nat assumes "t < 16" shows "(a mod 4) * 16 + t < 64"
proof -
  have "a mod 4 < 4" by simp
  then have "a mod 4 \<le> 3" by linarith
  then have "(a mod 4) * 16 \<le> 3 * 16" by (rule mult_le_mono1)
  with assms show ?thesis by linarith
qed
lemma b64_v2: fixes b t :: nat assumes "t < 4" shows "(b mod 16) * 4 + t < 64"
proof -
  have "b mod 16 < 16" by simp
  then have "b mod 16 \<le> 15" by linarith
  then have "(b mod 16) * 4 \<le> 15 * 4" by (rule mult_le_mono1)
  with assms show ?thesis by linarith
qed

declare a2b_loop.simps [simp del]

lemma a2b_quad:
  fixes a b c :: nat
  assumes "a < 256" "b < 256" "c < 256"
  shows "a2b_loop 0 0 0 (b64_char (a div 4) # b64_char ((a mod 4) * 16 + b div 16) #
           b64_char ((b mod 16) * 4 + c div 64) # b64_char (c mod 64) # cs) =
         (case a2b_loop 0 0 0 cs of
            Inl e \<Rightarrow> Inl e
          | Inr out \<Rightarrow> Inr (char_of a # char_of b # char_of c # out))"
proof -
  have tb: "b div 16 < 16" using assms by (simp add: b64_t16)
  have tc: "c div 64 < 4" using assms by (simp add: b64_t4)
  have v0: "a div 4 < 64" using assms by (simp add: b64_v0)
  have v1: "(a mod 4) * 16 + b div 16 < 64" using tb by (rule b64_v1)
  have v2: "(b mod 16) * 4 + c div 64 < 64" using tc by (rule b64_v2)
  have v3: "c mod 64 < 64" by simp
  have s1: "a2b_loop 0 0 0 (b64_char (a div 4) # b64_char ((a mod 4) * 16 + b div 16) #
           b64_char ((b mod 16) * 4 + c div 64) # b64_char (c mod 64) # cs) =
      a2b_loop (a div 4) 6 1 (b64_char ((a mod 4) * 16 + b div 16) #
           b64_char ((b mod 16) * 4 + c div 64) # b64_char (c mod 64) # cs)"
    by (simp add: a2b_loop_b64_char [OF v0] Let_def)
  have s2: "a2b_loop (a div 4) 6 1 (b64_char ((a mod 4) * 16 + b div 16) # rest) =
      (case a2b_loop (b div 16) 4 2 rest of Inl e \<Rightarrow> Inl e | Inr out \<Rightarrow> Inr (char_of a # out))"
    for rest
    by (simp add: a2b_loop_b64_char [OF v1] Let_def b64_e1 [OF tb] b64_e2 [OF tb]
        numeral_2_eq_2 [symmetric] numeral_3_eq_3 [symmetric] cong: sum.case_cong)
  have s3: "a2b_loop (b div 16) 4 2 (b64_char ((b mod 16) * 4 + c div 64) # rest) =
      (case a2b_loop (c div 64) 2 3 rest of Inl e \<Rightarrow> Inl e | Inr out \<Rightarrow> Inr (char_of b # out))"
    for rest
    by (simp add: a2b_loop_b64_char [OF v2] Let_def b64_e3 [OF tc] b64_e4 [OF tc]
        numeral_2_eq_2 [symmetric] numeral_3_eq_3 [symmetric] cong: sum.case_cong)
  have s4: "a2b_loop (c div 64) 2 3 (b64_char (c mod 64) # rest) =
      (case a2b_loop 0 0 0 rest of Inl e \<Rightarrow> Inl e | Inr out \<Rightarrow> Inr (char_of c # out))"
    for rest
    by (simp add: a2b_loop_b64_char [OF v3] Let_def
        numeral_2_eq_2 [symmetric] numeral_3_eq_3 [symmetric] cong: sum.case_cong)
  show ?thesis
    by (simp only: s1 s2 s3 s4) (simp split: sum.splits)
qed

lemma a2b_pad3: "a2b_loop leftchar leftbits 3 (CHR ''='' # cs) = Inr []"
  by (simp add: a2b_loop.simps)

lemma a2b_pad2: "a2b_loop leftchar leftbits 2 [CHR ''='', CHR ''=''] = Inr []"
  by (simp add: a2b_loop.simps)

lemma a2b_tail2:
  fixes a b :: nat
  assumes "a < 256" "b < 256"
  shows "a2b_loop 0 0 0 [b64_char (a div 4), b64_char ((a mod 4) * 16 + b div 16),
           b64_char ((b mod 16) * 4), CHR ''=''] = Inr [char_of a, char_of b]"
proof -
  have tb: "b div 16 < 16" using assms by (simp add: b64_t16)
  have v0: "a div 4 < 64" using assms by (simp add: b64_v0)
  have v1: "(a mod 4) * 16 + b div 16 < 64" using tb by (rule b64_v1)
  have v2: "(b mod 16) * 4 < 64" using b64_v2 [of 0 b] by simp
  have e3: "(b div 16 * 64 + b mod 16 * 4) div 4 = b" using b64_e3 [of 0 b] by simp
  have e4: "(b div 16 * 64 + b mod 16 * 4) mod 4 = 0" using b64_e4 [of 0 b] by simp
  have s1: "a2b_loop 0 0 0 (b64_char (a div 4) # rest) = a2b_loop (a div 4) 6 1 rest" for rest
    by (simp add: a2b_loop_b64_char [OF v0] Let_def)
  have s2: "a2b_loop (a div 4) 6 1 (b64_char ((a mod 4) * 16 + b div 16) # rest) =
      (case a2b_loop (b div 16) 4 2 rest of Inl e \<Rightarrow> Inl e | Inr out \<Rightarrow> Inr (char_of a # out))"
    for rest
    by (simp add: a2b_loop_b64_char [OF v1] Let_def b64_e1 [OF tb] b64_e2 [OF tb]
        numeral_2_eq_2 [symmetric] numeral_3_eq_3 [symmetric] cong: sum.case_cong)
  have s3: "a2b_loop (b div 16) 4 2 (b64_char ((b mod 16) * 4) # rest) =
      (case a2b_loop 0 2 3 rest of Inl e \<Rightarrow> Inl e | Inr out \<Rightarrow> Inr (char_of b # out))"
    for rest
    by (simp add: a2b_loop_b64_char [OF v2] Let_def e3 e4
        numeral_2_eq_2 [symmetric] numeral_3_eq_3 [symmetric] cong: sum.case_cong)
  show ?thesis
    by (simp only: s1 s2 s3 a2b_pad3) simp
qed

lemma a2b_tail1:
  fixes a :: nat
  assumes "a < 256"
  shows "a2b_loop 0 0 0 [b64_char (a div 4), b64_char ((a mod 4) * 16), CHR ''='', CHR ''='']
           = Inr [char_of a]"
proof -
  have v0: "a div 4 < 64" using assms by (simp add: b64_v0)
  have v1: "(a mod 4) * 16 < 64" using b64_v1 [of 0 a] by simp
  have e1: "(a div 4 * 64 + a mod 4 * 16) div 16 = a" using b64_e1 [of 0 a] by simp
  have e2: "(a div 4 * 64 + a mod 4 * 16) mod 16 = 0" using b64_e2 [of 0 a] by simp
  have s1: "a2b_loop 0 0 0 (b64_char (a div 4) # rest) = a2b_loop (a div 4) 6 1 rest" for rest
    by (simp add: a2b_loop_b64_char [OF v0] Let_def)
  have s2: "a2b_loop (a div 4) 6 1 (b64_char ((a mod 4) * 16) # rest) =
      (case a2b_loop 0 4 2 rest of Inl e \<Rightarrow> Inl e | Inr out \<Rightarrow> Inr (char_of a # out))"
    for rest
    by (simp add: a2b_loop_b64_char [OF v1] Let_def e1 e2
        numeral_2_eq_2 [symmetric] numeral_3_eq_3 [symmetric] cong: sum.case_cong)
  show ?thesis
    by (simp only: s1 s2 a2b_pad2) simp
qed

lemma a2b_b64encode: "a2b_loop 0 0 0 (b64encode s) = Inr s"
proof (induction s rule: b64encode.induct)
  case (1 x y z r)
  show ?case
    using a2b_quad [OF of_char_lt_256 of_char_lt_256 of_char_lt_256, of x y z "b64encode r"] 1
    by (simp add: Let_def)
next
  case (2 x y)
  show ?case using a2b_tail2 [OF of_char_lt_256 of_char_lt_256, of x y] by (simp add: Let_def)
next
  case (3 x)
  show ?case using a2b_tail1 [OF of_char_lt_256, of x] by (simp add: Let_def)
next
  case 4
  show ?case by (simp add: a2b_loop.simps)
qed

lemma b64_chars_Cons: "v < 64 \<Longrightarrow> b64_chars body \<Longrightarrow> b64_chars (b64_char v # body)"
  by (auto simp: b64_chars_def)

lemma b64_chars_Nil: "b64_chars []"
  by (simp add: b64_chars_def)

lemma b64_shape_quad:
  assumes "b64_shape (b64encode r) body k"
  shows "b64_shape (b64encode (x # y # z # r))
     (b64_char (of_char x div 4) # b64_char ((of_char x mod 4) * 16 + of_char y div 16) #
         b64_char ((of_char y mod 16) * 4 + of_char z div 64) # b64_char (of_char z mod 64) # body) k"
proof -
  define a b c where "a = (of_char x :: nat)" and "b = (of_char y :: nat)" and "c = (of_char z :: nat)"
  have lt: "a < 256" "b < 256" "c < 256" by (simp_all add: a_def b_def c_def of_char_lt_256)
  have v0: "a div 4 < 64" using lt by (simp add: b64_v0)
  have v1: "(a mod 4) * 16 + b div 16 < 64" using lt by (simp add: b64_v1 b64_t16)
  have v2: "(b mod 16) * 4 + c div 64 < 64" using lt by (simp add: b64_v2 b64_t4)
  have v3: "c mod 64 < 64" by simp
  have "b64_chars body" using assms by (simp add: b64_shape_def)
  then have "b64_chars (b64_char (c mod 64) # body)" using v3 by (rule b64_chars_Cons [rotated])
  then have "b64_chars (b64_char ((b mod 16) * 4 + c div 64) # b64_char (c mod 64) # body)"
    using v2 by (rule b64_chars_Cons [rotated])
  then have "b64_chars (b64_char ((a mod 4) * 16 + b div 16) #
      b64_char ((b mod 16) * 4 + c div 64) # b64_char (c mod 64) # body)"
    using v1 by (rule b64_chars_Cons [rotated])
  then have "b64_chars (b64_char (a div 4) # b64_char ((a mod 4) * 16 + b div 16) #
      b64_char ((b mod 16) * 4 + c div 64) # b64_char (c mod 64) # body)"
    using v0 by (rule b64_chars_Cons [rotated])
  then show ?thesis
    using assms unfolding b64_shape_def a_def b_def c_def by (simp add: Let_def)
qed

lemma b64_shape_tail2:
  "b64_shape (b64encode [x, y])
     [b64_char (of_char x div 4), b64_char ((of_char x mod 4) * 16 + of_char y div 16),
      b64_char ((of_char y mod 16) * 4)] 1"
proof -
  define a b where "a = (of_char x :: nat)" and "b = (of_char y :: nat)"
  have lt: "a < 256" "b < 256" by (simp_all add: a_def b_def of_char_lt_256)
  have v0: "a div 4 < 64" using lt by (simp add: b64_v0)
  have v1: "(a mod 4) * 16 + b div 16 < 64" using lt by (simp add: b64_v1 b64_t16)
  have v2: "(b mod 16) * 4 < 64" using b64_v2 [of 0 b] by simp
  have "b64_chars [b64_char ((b mod 16) * 4)]"
    using v2 b64_chars_Nil by (rule b64_chars_Cons)
  then have "b64_chars [b64_char ((a mod 4) * 16 + b div 16), b64_char ((b mod 16) * 4)]"
    using v1 by (rule b64_chars_Cons [rotated])
  then have "b64_chars [b64_char (a div 4), b64_char ((a mod 4) * 16 + b div 16),
      b64_char ((b mod 16) * 4)]"
    using v0 by (rule b64_chars_Cons [rotated])
  then show ?thesis
    unfolding b64_shape_def a_def b_def by (simp add: Let_def)
qed

lemma b64_shape_tail1:
  "b64_shape (b64encode [x])
     [b64_char (of_char x div 4), b64_char ((of_char x mod 4) * 16)] 2"
proof -
  define a where "a = (of_char x :: nat)"
  have lt: "a < 256" by (simp_all add: a_def of_char_lt_256)
  have v0: "a div 4 < 64" using lt by (simp add: b64_v0)
  have v1: "(a mod 4) * 16 < 64" using b64_v1 [of 0 a] by simp
  have "b64_chars [b64_char ((a mod 4) * 16)]"
    using v1 b64_chars_Nil by (rule b64_chars_Cons)
  then have "b64_chars [b64_char (a div 4), b64_char ((a mod 4) * 16)]"
    using v0 by (rule b64_chars_Cons [rotated])
  then show ?thesis
    unfolding b64_shape_def a_def by (simp add: Let_def numeral_2_eq_2)
qed

lemma b64encode_shape: "\<exists>body k. b64_shape (b64encode s) body k"
proof (induction s rule: b64encode.induct)
  case (1 x y z r)
  then obtain body k where "b64_shape (b64encode r) body k" by blast
  then show ?case using b64_shape_quad by blast
next
  case (2 x y)
  show ?case using b64_shape_tail2 by blast
next
  case (3 x)
  show ?case using b64_shape_tail1 by blast
next
  case 4
  have "b64_shape (b64encode []) [] 0" by (simp add: b64_shape_def b64_chars_Nil)
  then show ?case by blast
qed

lemma b64_char_not_pad: "v < 64 \<Longrightarrow> b64_char v \<noteq> CHR ''=''"
  by (rule b64_char_neq) simp_all

lemma urlsafe_translation_inverse:
  "v < 64 \<Longrightarrow> urlsafe_decode_translation (urlsafe_encode_translation (b64_char v)) = b64_char v"
proof -
  assume v: "v < 64"
  have "b64_char v \<noteq> CHR ''-''" "b64_char v \<noteq> CHR ''_''"
    by (rule b64_char_neq [OF v], simp)+
  then show ?thesis
    by (simp add: urlsafe_decode_translation_def urlsafe_encode_translation_def)
qed

lemma urlsafe_char_neq:
  assumes "v < 64"
    and "(of_char c :: nat) < 43 \<or> (of_char c :: nat) \<in> {43, 44, 46, 47, 58, 59, 60, 61, 62, 63, 64}"
  shows "urlsafe_encode_translation (b64_char v) \<noteq> c"
proof
  assume e: "urlsafe_encode_translation (b64_char v) = c"
  show False
  proof (cases "b64_char v = CHR ''+'' \<or> b64_char v = CHR ''/''")
    case True
    then have "c = CHR ''-'' \<or> c = CHR ''_''"
      using e by (auto simp: urlsafe_encode_translation_def)
    with assms(2) show False by auto
  next
    case False
    then have c: "b64_char v = c" using e by (simp add: urlsafe_encode_translation_def)
    have "v < 62"
    proof (rule ccontr)
      assume "\<not> v < 62"
      with assms(1) have "v = 62 \<or> v = 63" by linarith
      then have "b64_char v = CHR ''+'' \<or> b64_char v = CHR ''/''" by (auto simp: b64_char_def)
      with False show False by simp
    qed
    then have "(of_char c :: nat) = (if v < 26 then v + 65 else if v < 52 then v + 71 else v - 4)"
      using of_char_b64_char [OF assms(1)] c by simp
    with \<open>v < 62\<close> assms(2) show False by (auto split: if_splits)
  qed
qed

lemma map_decode_encode: "b64_chars body \<Longrightarrow>
  map urlsafe_decode_translation (map urlsafe_encode_translation body) = body"
  by (induction body) (auto simp: b64_chars_def urlsafe_translation_inverse)

lemma rstrip_pad:
  "CHR ''='' \<notin> set xs \<Longrightarrow>
   rev (dropWhile (\<lambda>c. c = CHR ''='') (rev (xs @ replicate k (CHR ''='')))) = xs"
proof -
  assume n: "CHR ''='' \<notin> set xs"
  have "dropWhile (\<lambda>c. c = CHR ''='') (replicate k (CHR ''='') @ rev xs) =
        dropWhile (\<lambda>c. c = CHR ''='') (rev xs)"
    by (rule dropWhile_append2) simp
  also have "\<dots> = rev xs"
  proof (cases "rev xs")
    case Nil
    then show ?thesis by simp
  next
    case (Cons h t)
    then have "h \<in> set xs" by (metis list.set_intros(1) set_rev)
    with n have "h \<noteq> CHR ''=''" by blast
    with Cons show ?thesis by simp
  qed
  finally show ?thesis by simp
qed

lemma pad_count:
  fixes n k :: nat
  assumes "k \<le> 2" and "(n + k) mod 4 = 0"
  shows "(4 - n mod 4) mod 4 = k"
proof -
  define m where "m = n mod 4"
  have m: "m < 4" by (simp add: m_def)
  have "(m + k) mod 4 = 0" using assms(2) unfolding m_def by (simp add: mod_add_left_eq)
  moreover have "m = 0 \<or> m = 1 \<or> m = 2 \<or> m = 3" using m by linarith
  moreover have "k = 0 \<or> k = 1 \<or> k = 2" using assms(1) by linarith
  ultimately have "(4 - m) mod 4 = k" by (elim disjE; simp)
  then show ?thesis by (simp add: m_def)
qed

lemma base64_encode_body:
  assumes "b64_shape (b64encode s) body k"
  shows "base64_encode s = map urlsafe_encode_translation body"
proof -
  have e: "b64encode s = body @ replicate k (CHR ''='')" and bc: "b64_chars body"
    using assms by (simp_all add: b64_shape_def)
  let ?u = "map urlsafe_encode_translation body"
  have np: "CHR ''='' \<notin> set ?u"
  proof
    assume "CHR ''='' \<in> set ?u"
    then obtain c where c: "c \<in> set body" "urlsafe_encode_translation c = CHR ''=''" by auto
    obtain v where v: "v < 64" "c = b64_char v" using bc c(1)
      by (auto simp: b64_chars_def)
    have "urlsafe_encode_translation (b64_char v) \<noteq> CHR ''=''"
      by (rule urlsafe_char_neq [OF v(1)]) simp
    then show False using c(2) v(2) by simp
  qed
  have "urlsafe_b64encode s = ?u @ replicate k (CHR ''='')"
    by (simp add: urlsafe_b64encode_def e urlsafe_encode_translation_def)
  then show ?thesis
    using rstrip_pad [OF np] by (simp add: base64_encode_def)
qed

lemma base64_decode_encode: "base64_decode (base64_encode s) = Inr s"
proof -
  obtain body k where sh: "b64_shape (b64encode s) body k" using b64encode_shape by blast
  then have e: "b64encode s = body @ replicate k (CHR ''='')" and bc: "b64_chars body"
    and k: "k \<le> 2" and l: "(length body + k) mod 4 = 0"
    by (simp_all add: b64_shape_def)
  let ?u = "map urlsafe_encode_translation body"
  have enc: "base64_encode s = ?u" using sh by (rule base64_encode_body)
  have p: "(4 - length ?u mod 4) mod 4 = k" using pad_count [OF k] l by simp
  have "base64_decode ?u =
      a2b_base64 (map urlsafe_decode_translation (?u @ replicate k (CHR ''='')))"
    unfolding base64_decode_def urlsafe_b64decode_def p ..
  also have "map urlsafe_decode_translation (?u @ replicate k (CHR ''='')) = b64encode s"
    using map_decode_encode [OF bc] by (simp add: e urlsafe_decode_translation_def)
  also have "a2b_base64 (b64encode s) = Inr s"
    by (simp add: a2b_base64_def a2b_b64encode)
  finally show ?thesis by (simp only: enc)
qed

lemma base64_encode_chars:
  assumes "(of_char c :: nat) < 43 \<or> (of_char c :: nat) \<in> {43, 44, 46, 47, 58, 59, 60, 61, 62, 63, 64}"
  shows "c \<notin> set (base64_encode s)"
proof
  assume c: "c \<in> set (base64_encode s)"
  obtain body k where sh: "b64_shape (b64encode s) body k" using b64encode_shape by blast
  then have bc: "b64_chars body" by (simp add: b64_shape_def)
  have enc: "base64_encode s = map urlsafe_encode_translation body"
    using sh by (rule base64_encode_body)
  from c enc obtain d where d: "d \<in> set body" "c = urlsafe_encode_translation d" by auto
  then obtain v where v: "v < 64" "d = b64_char v" using bc by (auto simp: b64_chars_def)
  have "urlsafe_encode_translation (b64_char v) \<noteq> c"
    using v(1) assms by (rule urlsafe_char_neq)
  then show False using d(2) v(2) by simp
qed

lemma base64_encode_no_sep: "CHR ''.'' \<notin> set (base64_encode s)"
  by (rule base64_encode_chars) simp

lemma base64_encode_no_plus: "CHR ''+'' \<notin> set (base64_encode s)"
  by (rule base64_encode_chars) simp

lemma base64_encode_no_at: "CHR ''@'' \<notin> set (base64_encode s)"
  by (rule base64_encode_chars) simp

section \<open>Signing and verifying\<close>

lemma hc_digest_adler:
  "\<exists>bs. hc_digest (InsecureAdlerCRC32Digest_class bo) h = Inr bs"
proof -
  obtain bs where "struct_pack_i bo (adler32 (val h)) = Inr bs"
    using adler32_range [of "val h"] by (simp add: struct_pack_i_def Let_def)
  then show ?thesis by (simp add: InsecureAdlerCRC32Digest_class_def digest_def)
qed

lemma hmac_digest_adler:
  "\<exists>code. hmac_digest (InsecureAdlerCRC32Digest_class bo) key msg = Inr code"
proof -
  let ?dm = "InsecureAdlerCRC32Digest_class bo"
  obtain key1 where k: "(if length key > (if hc_block_size ?dm < 16 then 64 else hc_block_size ?dm)
      then hc_digest ?dm (hc_new ?dm key) else Inr key) = Inr key1"
    using hc_digest_adler [of bo "hc_new ?dm key"] by (cases "length key > (if hc_block_size ?dm < 16 then 64 else hc_block_size ?dm)") auto
  show ?thesis
    unfolding hmac_digest_def Let_def k
    using hc_digest_adler [of bo] by (simp split: sum.splits) (metis sum.distinct(1) sumE)
qed

lemma get_signature_adler:
  assumes "digest_method s = InsecureAdlerCRC32Digest_class bo"
  shows "\<exists>sig. get_signature s v = Inr sig"
proof -
  obtain key where "derive_key s = Inr key"
    using hc_digest_adler [of bo] by (metis assms derive_key_def)
  moreover obtain code where "hmac_digest (digest_method s) key (want_bytes v) = Inr code"
    using hmac_digest_adler [of bo key "want_bytes v"] assms by auto
  ultimately show ?thesis by (simp add: get_signature_def)
qed

lemma get_signature_InrD:
  assumes "get_signature s v = Inr sig"
  shows "\<exists>key code. derive_key s = Inr key \<and>
           hmac_digest (digest_method s) key (want_bytes v) = Inr code \<and> sig = base64_encode code"
  using assms by (auto simp: get_signature_def Let_def split: sum.splits)

lemma verify_signature_own:
  assumes "get_signature s v = Inr sig"
  shows "verify_signature s (want_bytes v) sig = Inr True"
proof -
  obtain key code where "derive_key s = Inr key"
    "hmac_digest (digest_method s) key (want_bytes v) = Inr code" "sig = base64_encode code"
    using get_signature_InrD [OF assms] by blast
  then show ?thesis by (simp add: verify_signature_def base64_decode_encode)
qed

lemma unsign_signed:
  assumes "get_signature s v = Inr sig" and "sep s \<notin> set sig"
    and "want_bytes signed = want_bytes v @ [sep s] @ sig"
  shows "unsign s signed = Inr (want_bytes v)"
proof -
  have "rsplit1 (sep s) (want_bytes v @ sep s # sig) = [want_bytes v, sig]"
    using assms(2) by (rule rsplit1_append)
  then show ?thesis
    by (simp add: unsign_def assms(3) verify_signature_own [OF assms(1)])
qed

lemma verify_signature_other:
  assumes "derive_key s = Inr key" and "hmac_digest (digest_method s) key m = Inr code"
    and "base64_decode sig \<noteq> Inr code"
  shows "verify_signature s m sig = Inr False"
  using assms by (auto simp: verify_signature_def split: sum.splits)

lemma unsign_other:
  assumes "derive_key s = Inr key" and "hmac_digest (digest_method s) key m = Inr code"
    and "base64_decode sig \<noteq> Inr code" and "sep s \<notin> set sig"
    and "want_bytes signed = m @ [sep s] @ sig"
  shows "unsign s signed = Inl BadSignature"
proof -
  have "rsplit1 (sep s) (m @ sep s # sig) = [m, sig]" using assms(4) by (rule rsplit1_append)
  then show ?thesis
    by (simp add: unsign_def assms(5) verify_signature_other [OF assms(1,2,3)])
qed

lemma sep_make_signer [simp]: "sep (make_signer env k slt dm) = CHR ''.''"
  by (simp add: make_signer_def Signer_def)

lemma sep_make_signer' [simp]: "sep (make_signer' env k) = CHR ''.''"
  by (simp add: make_signer'_def)

lemma digest_method_make_signer' [simp]:
  "digest_method (make_signer' env k) = InsecureAdlerCRC32Digest_class (sys_byteorder env)"
  by (simp add: make_signer'_def make_signer_def Signer_def)

section \<open>Parsing a formatted address\<close>

lemma dot_atom_Nil [simp]: "dot_atom []"
  by (simp add: dot_atom_def)

lemma dot_atom_Cons [simp]:
  "dot_atom (c # s) = ((c = CHR ''.'' \<or> c \<notin> set atomends) \<and> dot_atom s)"
  by (simp add: dot_atom_def)

lemma dot_atom_append [simp]: "dot_atom (a @ b) = (dot_atom a \<and> dot_atom b)"
  by (simp add: dot_atom_def)

lemma dot_atom_charD:
  assumes "c = CHR ''.'' \<or> c \<notin> set atomends"
  shows "c \<notin> set (LWS @ [CHR 0x0A, CHR 0x0D])" "c \<notin> set LWS" "c \<noteq> CHR ''(''" "c \<noteq> CHR 0x22"
    "c \<noteq> CHR ''[''" "c \<noteq> CHR ''>''" "c \<noteq> CHR ''@''" "c \<noteq> CHR '':''" "c \<noteq> CHR ''<''"
    "c \<notin> set phraseends" "c \<noteq> CHR '',''"
  using assms by (auto simp: atomends_def specials_def LWS_def CR_def phraseends_def)

lemma gotonext_id:
  assumes "s = [] \<or> (hd s \<notin> set (LWS @ [CHR 0x0A, CHR 0x0D]) \<and> hd s \<noteq> CHR ''('')"
  shows "gotonext s cl = (s, cl)"
  using assms by (cases s) auto

lemma gotonext_dot_atom:
  assumes "dot_atom l" and "rest = [] \<or> hd rest = CHR ''@'' \<or> hd rest = CHR ''>''"
  shows "gotonext (l @ rest) cl = (l @ rest, cl)"
proof (rule gotonext_id)
  show "l @ rest = [] \<or> (hd (l @ rest) \<notin> set (LWS @ [CHR 0x0A, CHR 0x0D]) \<and> hd (l @ rest) \<noteq> CHR ''('')"
  proof (cases l)
    case Nil
    with assms(2) show ?thesis by (auto simp: LWS_def)
  next
    case (Cons c l')
    with assms(1) have "c = CHR ''.'' \<or> c \<notin> set atomends" by simp
    from dot_atom_charD(1,3) [OF this] Cons show ?thesis by simp
  qed
qed

lemma takeWhile_append_stop:
  assumes "rest = [] \<or> \<not> P (hd rest)"
  shows "takeWhile P (l @ rest) = takeWhile P l" "dropWhile P (l @ rest) = dropWhile P l @ rest"
  using assms by (induction l) (auto simp: neq_Nil_conv takeWhile_eq_Nil_iff dropWhile_eq_self_iff)

lemma getatom_append_stop:
  assumes "c \<notin> set ends" and "rest = [] \<or> hd rest \<in> set ends"
  shows "getatom ends (c # l @ rest) =
    (c # takeWhile (\<lambda>c. c \<notin> set ends) l, dropWhile (\<lambda>c. c \<notin> set ends) l @ rest)"
proof -
  have "rest = [] \<or> \<not> (\<lambda>c. c \<notin> set ends) (hd rest)" using assms(2) by simp
  from takeWhile_append_stop [where P = "\<lambda>c. c \<notin> set ends", OF this] assms(1)
  show ?thesis by (simp add: getatom_def)
qed

lemma addrspec_loop_dot_atom:
  assumes "dot_atom l" and "rest = [] \<or> hd rest = CHR ''@'' \<or> hd rest = CHR ''>''"
  shows "addrspec_loop (l @ rest) cl = (l, rest, cl)"
  using assms(1)
proof (induction "length l" arbitrary: l rule: less_induct)
  case less
  show ?case
  proof (cases l)
    case Nil
    show ?thesis
    proof (cases rest)
      case Nil
      with \<open>l = []\<close> show ?thesis by simp
    next
      case (Cons c r)
      with assms(2) have "c = CHR ''@'' \<or> c = CHR ''>''" by simp
      then show ?thesis using \<open>l = []\<close> Cons by (auto simp: atomends_def specials_def)
    qed
  next
    case (Cons c l')
    then have c: "c = CHR ''.'' \<or> c \<notin> set atomends" and l': "dot_atom l'" using less.prems by simp_all
    show ?thesis
    proof (cases "c = CHR ''.''")
      case True
      have "addrspec_loop (l' @ rest) cl = (l', rest, cl)" using less.hyps [of l'] l' Cons by simp
      then show ?thesis using True Cons gotonext_dot_atom [OF l' assms(2)] by simp
    next
      case False
      with c have na: "c \<notin> set atomends" by simp
      let ?P = "\<lambda>c. c \<notin> set atomends"
      have stop: "rest = [] \<or> hd rest \<in> set atomends"
        using assms(2) by (auto simp: atomends_def specials_def)
      have ga: "getatom atomends (c # l' @ rest) = (c # takeWhile ?P l', dropWhile ?P l' @ rest)"
        by (rule getatom_append_stop [OF na stop])
      have d2: "dot_atom (dropWhile ?P l')"
        using l' by (metis dot_atom_append takeWhile_dropWhile_id)
      have "length (dropWhile ?P l') < length l" using Cons by (simp add: length_dropWhile_le less_Suc_eq_le)
      then have ih: "addrspec_loop (dropWhile ?P l' @ rest) cl = (dropWhile ?P l', rest, cl)"
        using less.hyps d2 by simp
      show ?thesis
        using False na dot_atom_charD(4) [OF c] Cons ga gotonext_dot_atom [OF d2 assms(2)] ih
        by simp
    qed
  qed
qed

lemma getdomain_dot_atom:
  assumes "dot_atom l" and "rest = [] \<or> hd rest = CHR ''@'' \<or> hd rest = CHR ''>''"
  shows "getdomain (l @ rest) cl = (l, rest, cl)"
  using assms(1)
proof (induction "length l" arbitrary: l rule: less_induct)
  case less
  show ?case
  proof (cases l)
    case Nil
    show ?thesis
    proof (cases rest)
      case Nil
      with \<open>l = []\<close> show ?thesis by simp
    next
      case (Cons c r)
      with assms(2) have "c = CHR ''@'' \<or> c = CHR ''>''" by simp
      then show ?thesis using \<open>l = []\<close> Cons by (auto simp: atomends_def specials_def LWS_def)
    qed
  next
    case (Cons c l')
    then have c: "c = CHR ''.'' \<or> c \<notin> set atomends" and l': "dot_atom l'" using less.prems by simp_all
    note cd = dot_atom_charD [OF c]
    show ?thesis
    proof (cases "c = CHR ''.''")
      case True
      have "getdomain (l' @ rest) cl = (l', rest, cl)" using less.hyps [of l'] l' Cons by simp
      then show ?thesis using True Cons by (simp add: LWS_def)
    next
      case False
      with c have na: "c \<notin> set atomends" by simp
      let ?P = "\<lambda>c. c \<notin> set atomends"
      have stop: "rest = [] \<or> hd rest \<in> set atomends"
        using assms(2) by (auto simp: atomends_def specials_def)
      have ga: "getatom atomends (c # l' @ rest) = (c # takeWhile ?P l', dropWhile ?P l' @ rest)"
        by (rule getatom_append_stop [OF na stop])
      have d2: "dot_atom (dropWhile ?P l')"
        using l' by (metis dot_atom_append takeWhile_dropWhile_id)
      have "length (dropWhile ?P l') < length l" using Cons by (simp add: length_dropWhile_le less_Suc_eq_le)
      then have ih: "getdomain (dropWhile ?P l' @ rest) cl = (dropWhile ?P l', rest, cl)"
        using less.hyps d2 by simp
      show ?thesis
        using False na cd(2,3,5) Cons ga ih by simp
    qed
  qed
qed

lemma getaddrspec_dot_atom:
  assumes "dot_atom l" and "dot_atom d" and "rest = [] \<or> hd rest = CHR ''>''"
  shows "getaddrspec (l @ ''@'' @ d @ rest) cl = (l @ ''@'' @ d, rest, cl)"
proof -
  have r: "rest = [] \<or> hd rest = CHR ''@'' \<or> hd rest = CHR ''>''" using assms(3) by auto
  have 1: "gotonext (l @ CHR ''@'' # d @ rest) cl = (l @ CHR ''@'' # d @ rest, cl)"
    using gotonext_dot_atom [OF assms(1), of "CHR ''@'' # d @ rest" cl] by simp
  have 2: "addrspec_loop (l @ CHR ''@'' # d @ rest) cl = (l, CHR ''@'' # d @ rest, cl)"
    using addrspec_loop_dot_atom [OF assms(1), of "CHR ''@'' # d @ rest" cl] by simp
  have 3: "gotonext (d @ rest) cl = (d @ rest, cl)" by (rule gotonext_dot_atom [OF assms(2) r])
  have 4: "getdomain (d @ rest) cl = (d, rest, cl)" by (rule getdomain_dot_atom [OF assms(2) r])
  show ?thesis by (simp add: getaddrspec_def 1 2 3 4)
qed

lemma getquote_quotable:
  assumes "quotable rn"
  shows "getdelimited_loop [CHR 0x22, CHR 0x0D] False False (rn @ CHR 0x22 # rest) = (rn, rest)"
  using assms by (induction rn) (simp_all add: quotable_def)

lemma getphraselist_quoted:
  assumes "quotable rn"
  shows "getphraselist (CHR 0x22 # rn @ CHR 0x22 # CHR '' '' # CHR ''<'' # r) [] =
    ([rn], CHR ''<'' # r, [])"
proof -
  have "getquote (CHR 0x22 # rn @ CHR 0x22 # CHR '' '' # CHR ''<'' # r) = (rn, CHR '' '' # CHR ''<'' # r)"
    using getquote_quotable [OF assms] by (simp add: getquote_def getdelimited_def)
  moreover have "getphraselist (CHR '' '' # CHR ''<'' # r) [] = ([], CHR ''<'' # r, [])"
    by (simp add: LWS_def phraseends_def atomends_def specials_def)
  ultimately show ?thesis by (simp add: LWS_def)
qed

lemma getrouteaddr_dot_atom:
  assumes "dot_atom l" and "l \<noteq> []" and "dot_atom d"
  shows "getrouteaddr (CHR ''<'' # l @ ''@'' @ d @ ''>'') [] = (l @ ''@'' @ d, [], [])"
proof -
  obtain c l' where l: "l = c # l'" using assms(2) by (cases l) auto
  with assms(1) have c: "c = CHR ''.'' \<or> c \<notin> set atomends" by simp
  note cd = dot_atom_charD [OF c]
  define t where "t = l' @ CHR ''@'' # d @ ''>''"
  have 1: "gotonext (c # t) [] = (c # t, [])"
    using gotonext_dot_atom [OF assms(1), of "CHR ''@'' # d @ ''>''" "[]"] by (simp add: l t_def)
  have 2: "getaddrspec (c # t) [] = (l @ CHR ''@'' # d, ''>'', [])"
    using getaddrspec_dot_atom [OF assms(1,3), of "''>''" "[]"] by (simp add: l t_def)
  have 3: "routeaddr_loop False (c # t) [] = (l @ CHR ''@'' # d, [], [])"
    using cd(6,7,8) by (simp add: 2)
  have "getrouteaddr (CHR ''<'' # c # t) [] = (l @ CHR ''@'' # d, [], [])"
    by (simp add: getrouteaddr_def 1 3 del: gotonext.simps routeaddr_loop.simps)
  then show ?thesis by (simp add: l t_def)
qed

lemma getaddress_Nil: "getaddress [] = ([], [])"
  by simp

lemma getaddrlist_single:
  assumes "getaddress s = ([x], [])" and "s \<noteq> []"
  shows "parseaddr_text s = Some x"
proof -
  have "getaddrlist [] = []" by (subst getaddrlist.simps) (simp add: getaddress_Nil)
  then have "getaddrlist s = [x]"
    using assms by (subst getaddrlist.simps) (simp add: getaddress_Nil)
  then show ?thesis using assms(2) by (simp add: parseaddr_text_def AddressList_def)
qed

lemma getaddress_route:
  assumes "quotable rn" and "dot_atom l" and "l \<noteq> []" and "dot_atom d"
  shows "getaddress ([CHR 0x22] @ rn @ [CHR 0x22] @ '' <'' @ l @ ''@'' @ d @ ''>'') =
    ([(rn, l @ ''@'' @ d)], [])"
proof -
  define r where "r = l @ ''@'' @ d @ ''>''"
  define s where "s = CHR 0x22 # rn @ CHR 0x22 # CHR '' '' # CHR ''<'' # r"
  have 1: "gotonext s [] = (s, [])" by (simp add: s_def LWS_def)
  have 2: "getphraselist s [] = ([rn], CHR ''<'' # r, [])"
    unfolding s_def by (rule getphraselist_quoted [OF assms(1)])
  have 3: "gotonext (CHR ''<'' # r) [] = (CHR ''<'' # r, [])" by (simp add: LWS_def)
  have 4: "getrouteaddr (CHR ''<'' # r) [] = (l @ ''@'' @ d, [], [])"
    unfolding r_def by (rule getrouteaddr_dot_atom [OF assms(2,3,4)])
  have 5: "gotonext [] [] = ([], [])" by simp
  have "getaddress s = ([(rn, l @ ''@'' @ d)], [])"
    by (subst getaddress.simps)
      (simp add: 1 2 3 4 5 join_space_def del: gotonext.simps getphraselist.simps)
  then show ?thesis by (simp add: s_def r_def)
qed

lemma parseaddr_text_route:
  assumes "quotable rn" and "dot_atom l" and "l \<noteq> []" and "dot_atom d"
  shows "parseaddr_text ([CHR 0x22] @ rn @ [CHR 0x22] @ '' <'' @ l @ ''@'' @ d @ ''>'') =
    Some (rn, l @ ''@'' @ d)"
  by (rule getaddrlist_single [OF getaddress_route [OF assms]]) simp

lemma getphraselist_dot_atom:
  assumes "dot_atom l" and "l \<noteq> []"
  shows "getphraselist (l @ CHR ''@'' # r) [] = ([l], CHR ''@'' # r, [])"
proof -
  obtain c l' where l: "l = c # l'" using assms(2) by (cases l) auto
  with assms(1) have c: "c = CHR ''.'' \<or> c \<notin> set atomends" by simp
  note cd = dot_atom_charD [OF c]
  have np: "\<forall>x\<in>set l'. x \<notin> set phraseends"
    using assms(1) l by (auto simp: dot_atom_def list_all_iff phraseends_def)
  have "getatom phraseends (c # l' @ CHR ''@'' # r) = (c # l', CHR ''@'' # r)"
    using getatom_append_stop [OF cd(10), of "CHR ''@'' # r" l'] np
    by (simp add: phraseends_def atomends_def specials_def)
  moreover have "getphraselist (CHR ''@'' # r) [] = ([], CHR ''@'' # r, [])"
    by (simp add: LWS_def phraseends_def atomends_def specials_def)
  ultimately show ?thesis using cd(2,3,4,10) by (simp add: l)
qed

lemma getaddress_bare:
  assumes "dot_atom l" and "l \<noteq> []" and "dot_atom d"
  shows "getaddress (l @ ''@'' @ d) = ([([], l @ ''@'' @ d)], [])"
proof -
  define s where "s = l @ CHR ''@'' # d"
  have 1: "gotonext s [] = (s, [])"
    using gotonext_dot_atom [OF assms(1), of "CHR ''@'' # d" "[]"] by (simp add: s_def)
  have 2: "getphraselist s [] = ([l], CHR ''@'' # d, [])"
    unfolding s_def by (rule getphraselist_dot_atom [OF assms(1,2)])
  have 3: "gotonext (CHR ''@'' # d) [] = (CHR ''@'' # d, [])" by (simp add: LWS_def)
  have 4: "getaddrspec s [] = (l @ ''@'' @ d, [], [])"
    using getaddrspec_dot_atom [OF assms(1,3), of "[]" "[]"] by (simp add: s_def)
  have 5: "gotonext [] [] = ([], [])" by simp
  have "getaddress s = ([([], l @ ''@'' @ d)], [])"
    by (subst getaddress.simps)
      (simp add: 1 2 3 4 5 join_space_def del: gotonext.simps getphraselist.simps)
  then show ?thesis by (simp add: s_def)
qed

lemma parseaddr_text_bare:
  assumes "dot_atom l" and "l \<noteq> []" and "dot_atom d"
  shows "parseaddr_text (l @ ''@'' @ d) = Some ([], l @ ''@'' @ d)"
  by (rule getaddrlist_single [OF getaddress_bare [OF assms]]) (use assms(2) in simp)

lemma parseaddr_text_dump:
  assumes "quotable rn" and "dot_atom l" and "l \<noteq> []" and "dot_atom d"
  shows "parseaddr_text (dump_text (rn, l @ ''@'' @ d)) = Some (rn, l @ ''@'' @ d)"
  using parseaddr_text_route [OF assms] parseaddr_text_bare [OF assms(2,3,4)]
  by (simp add: dump_text_def)

section \<open>Characters of a token\<close>

lemma ascii_Nil [simp]: "ascii []"
  by (simp add: ascii_def)

lemma ascii_Cons [simp]: "ascii (c # s) = ((of_char c :: nat) < 128 \<and> ascii s)"
  by (simp add: ascii_def)

lemma ascii_append [simp]: "ascii (a @ b) = (ascii a \<and> ascii b)"
  by (simp add: ascii_def)

lemma atomends_codes:
  assumes "c \<in> set atomends"
  shows "c = CHR ''.'' \<or>
    (of_char c :: nat) \<in> {9, 10, 13, 32, 34, 40, 41, 44, 58, 59, 60, 62, 64, 91, 93}"
  using assms by (auto simp: atomends_def specials_def LWS_def CR_def)

lemma hexdigit_codes:
  assumes "n < 16"
  shows "(48 \<le> (of_char (hexdigit n) :: nat) \<and> (of_char (hexdigit n) :: nat) \<le> 57) \<or>
    (65 \<le> (of_char (hexdigit n) :: nat) \<and> (of_char (hexdigit n) :: nat) \<le> 70)"
  using assms of_char_hexdigit [OF assms] by (auto split: if_splits)

lemma always_safe_codes:
  assumes "c \<in> set always_safe"
  shows "(48 \<le> (of_char c :: nat) \<and> (of_char c :: nat) \<le> 57) \<or>
    (65 \<le> (of_char c :: nat) \<and> (of_char c :: nat) \<le> 90) \<or>
    (97 \<le> (of_char c :: nat) \<and> (of_char c :: nat) \<le> 122) \<or>
    (of_char c :: nat) \<in> {45, 46, 95}"
  using assms by (auto simp: always_safe_def)

lemma quoter_codes:
  assumes "x \<in> set (quoter c)"
  shows "(48 \<le> (of_char x :: nat) \<and> (of_char x :: nat) \<le> 57) \<or>
    (65 \<le> (of_char x :: nat) \<and> (of_char x :: nat) \<le> 90) \<or>
    (97 \<le> (of_char x :: nat) \<and> (of_char x :: nat) \<le> 122) \<or>
    (of_char x :: nat) \<in> {37, 45, 46, 47, 95}"
proof (cases "c \<in> set always_safe \<or> c = CHR ''/''")
  case True
  then have "x = c" using assms by (auto simp: quoter_def)
  with True always_safe_codes [of c] show ?thesis by auto
next
  case False
  have d: "(of_char c :: nat) div 16 < 16" using of_char_lt_256 [of c] by arith
  have m: "(of_char c :: nat) mod 16 < 16" by simp
  from False assms have "x = CHR ''%'' \<or> x = hexdigit ((of_char c :: nat) div 16) \<or>
    x = hexdigit ((of_char c :: nat) mod 16)"
    by (auto simp: quoter_def)
  then show ?thesis
    using hexdigit_codes [OF d] hexdigit_codes [OF m] by (elim disjE) auto
qed

lemma quote_codes:
  assumes "x \<in> set (quote s)"
  shows "(48 \<le> (of_char x :: nat) \<and> (of_char x :: nat) \<le> 57) \<or>
    (65 \<le> (of_char x :: nat) \<and> (of_char x :: nat) \<le> 90) \<or>
    (97 \<le> (of_char x :: nat) \<and> (of_char x :: nat) \<le> 122) \<or>
    (of_char x :: nat) \<in> {37, 45, 46, 47, 95}"
proof -
  from assms obtain c where "x \<in> set (quoter c)" by (auto simp: quote_def)
  then show ?thesis by (rule quoter_codes)
qed

lemma ascii_quote: "ascii (quote s)"
proof -
  have "(of_char x :: nat) < 128" if "x \<in> set (quote s)" for x
    using quote_codes [OF that] by auto
  then show ?thesis by (simp add: ascii_def list_all_iff)
qed

lemma dot_atom_quote: "dot_atom (quote s)"
proof -
  have "x = CHR ''.'' \<or> x \<notin> set atomends" if "x \<in> set (quote s)" for x
    using quote_codes [OF that] atomends_codes [of x] by auto
  then show ?thesis by (simp add: dot_atom_def list_all_iff)
qed

lemma base64_encode_codes:
  assumes "c \<in> set (base64_encode s)"
  shows "(48 \<le> (of_char c :: nat) \<and> (of_char c :: nat) \<le> 57) \<or>
    (65 \<le> (of_char c :: nat) \<and> (of_char c :: nat) \<le> 90) \<or>
    (97 \<le> (of_char c :: nat) \<and> (of_char c :: nat) \<le> 122) \<or>
    (of_char c :: nat) \<in> {45, 95}"
proof -
  obtain body k where sh: "b64_shape (b64encode s) body k" using b64encode_shape by blast
  then have bc: "b64_chars body" by (simp add: b64_shape_def)
  have enc: "base64_encode s = map urlsafe_encode_translation body"
    using sh by (rule base64_encode_body)
  from assms enc obtain d where d: "d \<in> set body" "c = urlsafe_encode_translation d" by auto
  then obtain v where v: "v < 64" "d = b64_char v" using bc by (auto simp: b64_chars_def)
  show ?thesis
  proof (cases "d = CHR ''+'' \<or> d = CHR ''/''")
    case True
    then show ?thesis using d(2) by (auto simp: urlsafe_encode_translation_def)
  next
    case False
    then have "c = d" using d(2) by (simp add: urlsafe_encode_translation_def)
    moreover have "(of_char d :: nat) \<noteq> 43"
    proof
      assume "(of_char d :: nat) = 43"
      then have "(of_char d :: nat) = of_char CHR ''+''" by simp
      then have "d = CHR ''+''" by (rule of_char_eqI)
      with False show False by simp
    qed
    moreover have "(of_char d :: nat) \<noteq> 47"
    proof
      assume "(of_char d :: nat) = 47"
      then have "(of_char d :: nat) = of_char CHR ''/''" by simp
      then have "d = CHR ''/''" by (rule of_char_eqI)
      with False show False by simp
    qed
    ultimately show ?thesis using of_char_b64_char [OF v(1)] v(2) by (auto split: if_splits)
  qed
qed

lemma ascii_base64_encode: "ascii (base64_encode s)"
proof -
  have "(of_char x :: nat) < 128" if "x \<in> set (base64_encode s)" for x
    using base64_encode_codes [OF that] by auto
  then show ?thesis by (simp add: ascii_def list_all_iff)
qed

lemma dot_atom_base64_encode: "dot_atom (base64_encode s)"
proof -
  have "x = CHR ''.'' \<or> x \<notin> set atomends" if "x \<in> set (base64_encode s)" for x
    using base64_encode_codes [OF that] atomends_codes [of x] by auto
  then show ?thesis by (simp add: dot_atom_def list_all_iff)
qed

lemma unquote_unicode_Cons:
  assumes "p \<noteq> CHR ''%''"
  shows "unquote_unicode (p # r) = p # unquote_unicode r"
proof (cases r)
  case Nil
  then show ?thesis by simp
next
  case (Cons a r1)
  note c1 = Cons
  show ?thesis
  proof (cases r1)
    case Nil
    with c1 show ?thesis by simp
  next
    case (Cons b r2)
    with c1 assms show ?thesis by simp
  qed
qed

lemma unquote_unicode_quoter:
  assumes "(of_char c :: nat) < 128"
  shows "unquote_unicode (quoter c @ r) = c # unquote_unicode r"
proof (cases "c \<in> set always_safe \<or> c = CHR ''/''")
  case True
  then have "c \<noteq> CHR ''%''" by (auto simp: always_safe_def)
  with True show ?thesis by (simp add: quoter_def unquote_unicode_Cons)
next
  case False
  have "(of_char c :: nat) div 16 < 16" using of_char_lt_256 [of c] by arith
  moreover have "(of_char c :: nat) mod 16 < 16" by simp
  ultimately show ?thesis using False assms
    by (simp add: quoter_def unhex_hexdigit utf8_latin1_def)
qed

lemma unquote_unicode_quote: "ascii s \<Longrightarrow> unquote_unicode (quote s) = s"
  by (induction s) (simp_all add: quote_def unquote_unicode_quoter)

section \<open>Decoding a tagged address\<close>

lemma dump_address_pair_unicode:
  assumes "decodable realname"
  shows "dump_address_pair (realname, Unicode a) = Inr (Unicode (dump_text (content realname, a)))"
  using assms by (cases realname) (simp_all add: dump_address_pair_def dump_text_def)

lemma parseaddr_unicode:
  "parseaddr (Unicode u) =
     map_option (\<lambda>(realname, addr). (Unicode realname, Unicode addr)) (parseaddr_text u)"
  by (simp add: parseaddr_def)

lemma principal_ids_from_addr_token:
  assumes addr: "content addr = local @ ''+'' @ enc @ ''.'' @ sig @ ''@'' @ domain"
    and "CHR ''+'' \<notin> set enc" "CHR ''+'' \<notin> set sig" "CHR ''+'' \<notin> set domain"
    and "CHR ''@'' \<notin> set enc" "CHR ''@'' \<notin> set sig"
    and "sep s = CHR ''.''" and "CHR ''.'' \<notin> set sig"
  shows "principal_ids_from_addr s addr =
           (case py_sum (unquote (like addr enc)) [Str ''.'', like addr sig] of
              Inl e \<Rightarrow> Inl e
            | Inr signed \<Rightarrow>
                (case unsign s signed of
                   Inl e \<Rightarrow> if e = BadSignature then Inr [] else Inl e
                 | Inr pids \<Rightarrow> split_u (CHR '','') (Str pids)))"
proof -
  let ?rest = "enc @ ''.'' @ sig @ ''@'' @ domain"
  let ?sae = "enc @ CHR ''.'' # sig"
  have "CHR ''+'' \<notin> set ?rest" using assms by simp
  then have a: "rsplit1 (CHR ''+'') (local @ CHR ''+'' # ?rest) = [local, ?rest]"
    by (rule rsplit1_append)
  have "CHR ''@'' \<notin> set ?sae" using assms by simp
  then have b: "split_char (CHR ''@'') (?sae @ CHR ''@'' # domain) = ?sae # split_char (CHR ''@'') domain"
    by (rule split_char_append)
  have c: "rsplit1 (CHR ''.'') ?sae = [enc, sig]" using assms(8) by (rule rsplit1_append)
  have a': "rsplit1 (CHR ''+'') (content addr) = [local, ?rest]"
    using a by (simp add: addr)
  have b': "split_char (CHR ''@'') (enc @ CHR ''.'' # sig @ CHR ''@'' # domain) =
      ?sae # split_char (CHR ''@'') domain" using b by simp
  show ?thesis
    unfolding principal_ids_from_addr_def a' by (simp add: b' c assms(7) Let_def)
qed

text \<open>Decoding a unicode address of the shape the encoder gives it.\<close>

lemma principal_ids_from_verp_dump:
  assumes rn: "quotable rn"
    and l: "dot_atom local" and e: "dot_atom enc" and g: "dot_atom sig" and d: "dot_atom domain"
    and "CHR ''+'' \<notin> set enc" "CHR ''+'' \<notin> set sig" "CHR ''+'' \<notin> set domain"
    and "CHR ''@'' \<notin> set enc" "CHR ''@'' \<notin> set sig" and "CHR ''.'' \<notin> set sig"
  shows "principal_ids_from_verp env
           (Unicode (dump_text (rn, local @ ''+'' @ enc @ ''.'' @ sig @ ''@'' @ domain))) key =
         (case unsign (make_signer' env key) (Unicode (unquote_unicode enc @ ''.'' @ sig)) of
            Inl e \<Rightarrow> if e = BadSignature then Inr [] else Inl e
          | Inr pids \<Rightarrow> split_u (CHR '','') (Str pids))"
proof -
  define l1 where "l1 = local @ ''+'' @ enc @ ''.'' @ sig"
  define taddr where "taddr = l1 @ ''@'' @ domain"
  define out where "out = dump_text (rn, taddr)"
  have dl: "dot_atom l1" using l e g by (simp add: l1_def atomends_def specials_def LWS_def CR_def)
  have nl: "l1 \<noteq> []" by (simp add: l1_def)
  have p: "parseaddr_text out = Some (rn, taddr)"
    unfolding out_def taddr_def by (rule parseaddr_text_dump [OF rn dl nl d])
  have g1: "CHR ''+'' \<in> set taddr" by (simp add: taddr_def l1_def)
  then have g2: "CHR ''+'' \<in> set out" by (simp add: out_def dump_text_def)
  then have g3: "out \<noteq> []" by auto
  have ca: "content (Unicode taddr) = local @ ''+'' @ enc @ ''.'' @ sig @ ''@'' @ domain"
    by (simp add: taddr_def l1_def)
  have g5: "principal_ids_from_addr (make_signer' env key) (Unicode taddr) =
      (case unsign (make_signer' env key) (Unicode (unquote_unicode enc @ ''.'' @ sig)) of
            Inl e \<Rightarrow> if e = BadSignature then Inr [] else Inl e
          | Inr pids \<Rightarrow> split_u (CHR '','') (Str pids))"
    using principal_ids_from_addr_token [OF ca assms(6-10) _ assms(11), of "make_signer' env key"]
    by simp
  have "principal_ids_from_verp env (Unicode out) key =
      (case unsign (make_signer' env key) (Unicode (unquote_unicode enc @ ''.'' @ sig)) of
            Inl e \<Rightarrow> if e = BadSignature then Inr [] else Inl e
          | Inr pids \<Rightarrow> split_u (CHR '','') (Str pids))"
    unfolding principal_ids_from_verp_def
    by (simp add: g1 g2 g3 g5 p parseaddr_unicode contains_u_def)
  then show ?thesis by (simp add: out_def taddr_def l1_def)
qed

lemma sign_InrD:
  "sign s m = Inr token \<Longrightarrow>
     \<exists>sig. get_signature s (Str m) = Inr sig \<and> token = quote m @ [sep s] @ sig"
  by (auto simp: sign_def split: sum.splits)

lemma sign_make_signer':
  "\<exists>sig. get_signature (make_signer' env key) (Str m) = Inr sig \<and>
     sign (make_signer' env key) m = Inr (quote m @ ''.'' @ sig) \<and>
     dot_atom sig \<and> ascii sig \<and>
     CHR ''.'' \<notin> set sig \<and> CHR ''+'' \<notin> set sig \<and> CHR ''@'' \<notin> set sig"
proof -
  obtain sig where sig: "get_signature (make_signer' env key) (Str m) = Inr sig"
    using get_signature_adler [OF digest_method_make_signer'] by blast
  obtain k code where "sig = base64_encode code"
    using get_signature_InrD [OF sig] by blast
  then have "dot_atom sig" "ascii sig" "CHR ''.'' \<notin> set sig" "CHR ''+'' \<notin> set sig"
    "CHR ''@'' \<notin> set sig"
    by (simp_all add: dot_atom_base64_encode ascii_base64_encode base64_encode_no_sep
        base64_encode_no_plus base64_encode_no_at)
  then show ?thesis using sig by (auto simp: sign_def)
qed

text \<open>Encoding for one principal, when the sender has exactly one \<open>@\<close>.\<close>

lemma verp_one_principal:
  assumes ids: "principal_ids_of env recipients = [pid]"
    and rn: "realname_from_recipients env fromaddr recipients = Inr sender"
    and parsed: "parseaddr sender = Some (realname, addr)"
    and dec: "decodable realname" "decodable addr"
    and addr: "content addr = local @ ''@'' @ domain"
    and at: "CHR ''@'' \<notin> set local" "CHR ''@'' \<notin> set domain"
    and tok: "sign (make_signer' env default_key) pid = Inr token"
  shows "verp_from_recipients env fromaddr recipients default_key =
           Inr (Some (Unicode (dump_text (content realname, local @ ''+'' @ token @ ''@'' @ domain))))"
proof -
  obtain sig where token: "token = quote pid @ ''.'' @ sig" and "ascii sig"
    using sign_make_signer' [of env default_key pid] tok by auto
  then have atok: "ascii token" by (simp add: ascii_quote)
  have sp: "split_char (CHR ''@'') (content addr) = [local, domain]"
    using split_char_append [OF at(1), of domain] split_char_notin [OF at(2)] by (simp add: addr)
  then have su: "split_u (CHR ''@'') addr = Inr [Unicode local, Unicode domain]"
    using dec(2) by (simp add: split_u_def)
  have ps: "py_sum (Unicode local) [Unicode ''+'', Str token, Unicode ''@'', Unicode domain] =
      Inr (Unicode (local @ ''+'' @ token @ ''@'' @ domain))"
    by (simp add: atok)
  show ?thesis
    unfolding verp_from_recipients_def
    by (simp add: rn parsed ids tok su atok Let_def dump_address_pair_unicode [OF dec(1)])
qed

section \<open>Concrete runs: signatures\<close>

text \<open>
  Signatures under the default secret, evaluated step by step: the derived key, the two
  digests of the HMAC, and the base64 text.
\<close>

lemma replicate_60: "replicate 60 x = [x, x, x, x, x, x, x, x, x, x, x, x, x, x, x, x, x, x, x, x, x, x, x, x, x, x, x, x, x, x, x, x, x, x, x, x, x, x, x, x, x, x, x, x, x, x, x, x, x, x, x, x, x, x, x, x, x, x, x, x]"
  by (simp add: numeral_eq_Suc)

lemma hmac_digest_adler_eq:
  assumes "length key \<le> 64"
  shows "hmac_digest (InsecureAdlerCRC32Digest_class bo) key msg =
     (case digest bo \<lparr>val = translate_xor 0x36 (key @ replicate (64 - length key) (CHR 0x00)) @ msg\<rparr> of
        Inl e \<Rightarrow> Inl e
      | Inr d \<Rightarrow>
          digest bo \<lparr>val = translate_xor 0x5C (key @ replicate (64 - length key) (CHR 0x00)) @ d\<rparr>)"
  using assms
  by (simp add: hmac_digest_def InsecureAdlerCRC32Digest_class_def digest_init_def update_def
      copy_def block_size_def Let_def cong: sum.case_cong)

lemma dm_default: "digest_method (make_signer' env0 None) = InsecureAdlerCRC32Digest_class Little"
  by (simp add: make_signer'_def make_signer_def get_signer_secret_def Signer_def env0_def)

lemma dk_default: "derive_key (make_signer' env0 None) = Inr [CHR ''i'', CHR 0x09, CHR 0xE5, CHR ''~'']"
proof -
  have dk: "derive_key (make_signer' env0 None) = struct_pack_i Little (adler32 ''email recipientsigner$Id$'')"
    by (simp add: derive_key_def make_signer'_def make_signer_def get_signer_secret_def Signer_def env0_def InsecureAdlerCRC32Digest_class_def digest_def
        digest_init_def)
  have a0: "adler32 ''email recipientsigner$Id$'' = 2128939369"
    by (simp add: adler32_def adler32_u_def adler32_step_def)
  have p0: "struct_pack_i Little (2128939369) = Inr [CHR ''i'', CHR 0x09, CHR 0xE5, CHR ''~'']"
    by (simp add: struct_pack_i_def char_of_def bit_iff_odd)
  show ?thesis unfolding dk a0 p0 ..
qed

lemma dm_collide: "digest_method (make_signer env0 ''$Id$'' ''fkbil recipient'' (InsecureAdlerCRC32Digest_class Little)) = InsecureAdlerCRC32Digest_class Little"
  by (simp add: make_signer_def get_signer_secret_def Signer_def env0_def)

lemma dk_collide: "derive_key (make_signer env0 ''$Id$'' ''fkbil recipient'' (InsecureAdlerCRC32Digest_class Little)) = Inr [CHR ''i'', CHR 0x09, CHR 0xE5, CHR ''~'']"
proof -
  have dk: "derive_key (make_signer env0 ''$Id$'' ''fkbil recipient'' (InsecureAdlerCRC32Digest_class Little)) = struct_pack_i Little (adler32 ''fkbil recipientsigner$Id$'')"
    by (simp add: derive_key_def make_signer_def get_signer_secret_def Signer_def env0_def InsecureAdlerCRC32Digest_class_def digest_def
        digest_init_def)
  have a0: "adler32 ''fkbil recipientsigner$Id$'' = 2128939369"
    by (simp add: adler32_def adler32_u_def adler32_step_def)
  have p0: "struct_pack_i Little (2128939369) = Inr [CHR ''i'', CHR 0x09, CHR 0xE5, CHR ''~'']"
    by (simp add: struct_pack_i_def char_of_def bit_iff_odd)
  show ?thesis unfolding dk a0 p0 ..
qed

lemma dm_other: "digest_method (make_signer env0 ''$Id$'' ''other'' (InsecureAdlerCRC32Digest_class Little)) = InsecureAdlerCRC32Digest_class Little"
  by (simp add: make_signer_def get_signer_secret_def Signer_def env0_def)

lemma dk_other: "derive_key (make_signer env0 ''$Id$'' ''other'' (InsecureAdlerCRC32Digest_class Little)) = Inr [CHR 0xA0, CHR 0x05, CHR ''*'', CHR ''1'']"
proof -
  have dk: "derive_key (make_signer env0 ''$Id$'' ''other'' (InsecureAdlerCRC32Digest_class Little)) = struct_pack_i Little (adler32 ''othersigner$Id$'')"
    by (simp add: derive_key_def make_signer_def get_signer_secret_def Signer_def env0_def InsecureAdlerCRC32Digest_class_def digest_def
        digest_init_def)
  have a0: "adler32 ''othersigner$Id$'' = 824837536"
    by (simp add: adler32_def adler32_u_def adler32_step_def)
  have p0: "struct_pack_i Little (824837536) = Inr [CHR 0xA0, CHR 0x05, CHR ''*'', CHR ''1'']"
    by (simp add: struct_pack_i_def char_of_def bit_iff_odd)
  show ?thesis unfolding dk a0 p0 ..
qed

lemma hm_k0_42:
  "hmac_digest (InsecureAdlerCRC32Digest_class Little) [CHR ''i'', CHR 0x09, CHR 0xE5, CHR ''~''] ''principal-42'' = Inr [CHR 0x60, CHR 0x19, CHR 0x9B, CHR ''J'']"
proof -
  have x36: "translate_xor 0x36 ([CHR ''i'', CHR 0x09, CHR 0xE5, CHR ''~''] @ replicate 60 (CHR 0x00)) =
      [CHR ''_'', CHR ''?'', CHR 0xD3, CHR ''H''] @ replicate 60 (CHR ''6'')"
    by (simp add: translate_xor_def char_of_def bit_iff_odd)
  have x5c: "translate_xor 0x5C ([CHR ''i'', CHR 0x09, CHR 0xE5, CHR ''~''] @ replicate 60 (CHR 0x00)) =
      [CHR ''5'', CHR ''U'', CHR 0xB9, CHR 0x22] @ replicate 60 (CHR 0x5C)"
    by (simp add: translate_xor_def char_of_def bit_iff_odd)
  have a1: "adler32 (([CHR ''_'', CHR ''?'', CHR 0xD3, CHR ''H''] @ replicate 60 (CHR ''6'')) @ ''principal-42'') = - 1175973193"
    by (simp add: adler32_def adler32_u_def adler32_step_def replicate_60)
  have p1: "struct_pack_i Little (- 1175973193) = Inr [CHR 0xB7, CHR 0x12, CHR 0xE8, CHR 0xB9]"
    by (simp add: struct_pack_i_def char_of_def bit_iff_odd)
  have a2: "adler32 (([CHR ''5'', CHR ''U'', CHR 0xB9, CHR 0x22] @ replicate 60 (CHR 0x5C)) @ [CHR 0xB7, CHR 0x12, CHR 0xE8, CHR 0xB9]) = 1251678560"
    by (simp add: adler32_def adler32_u_def adler32_step_def replicate_60)
  have p2: "struct_pack_i Little (1251678560) = Inr [CHR 0x60, CHR 0x19, CHR 0x9B, CHR ''J'']"
    by (simp add: struct_pack_i_def char_of_def bit_iff_odd)
  have len: "length [CHR ''i'', CHR 0x09, CHR 0xE5, CHR ''~''] \<le> 64" by simp
  have l60: "64 - length [CHR ''i'', CHR 0x09, CHR 0xE5, CHR ''~''] = 60" by simp
  show ?thesis
    unfolding hmac_digest_adler_eq [OF len] l60 x36 x5c digest_def Let_def
      InsecureAdlerCRC32Digest.simps a1 p1 sum.case a2 p2 ..
qed

lemma b64_k0_42: "base64_encode [CHR 0x60, CHR 0x19, CHR 0x9B, CHR ''J''] = ''YBmbSg''"
  by (simp add: base64_encode_def urlsafe_b64encode_def urlsafe_encode_translation_def
      b64_char_def char_of_def bit_iff_odd)

lemma hm_k0_ab:
  "hmac_digest (InsecureAdlerCRC32Digest_class Little) [CHR ''i'', CHR 0x09, CHR 0xE5, CHR ''~''] ''a,b'' = Inr [CHR ''X'', CHR 0x18, CHR ''['', CHR ''H'']"
proof -
  have x36: "translate_xor 0x36 ([CHR ''i'', CHR 0x09, CHR 0xE5, CHR ''~''] @ replicate 60 (CHR 0x00)) =
      [CHR ''_'', CHR ''?'', CHR 0xD3, CHR ''H''] @ replicate 60 (CHR ''6'')"
    by (simp add: translate_xor_def char_of_def bit_iff_odd)
  have x5c: "translate_xor 0x5C ([CHR ''i'', CHR 0x09, CHR 0xE5, CHR ''~''] @ replicate 60 (CHR 0x00)) =
      [CHR ''5'', CHR ''U'', CHR 0xB9, CHR 0x22] @ replicate 60 (CHR 0x5C)"
    by (simp add: translate_xor_def char_of_def bit_iff_odd)
  have a1: "adler32 (([CHR ''_'', CHR ''?'', CHR 0xD3, CHR ''H''] @ replicate 60 (CHR ''6'')) @ ''a,b'') = 451415889"
    by (simp add: adler32_def adler32_u_def adler32_step_def replicate_60)
  have p1: "struct_pack_i Little (451415889) = Inr [CHR ''Q'', CHR 0x0F, CHR 0xE8, CHR 0x1A]"
    by (simp add: struct_pack_i_def char_of_def bit_iff_odd)
  have a2: "adler32 (([CHR ''5'', CHR ''U'', CHR 0xB9, CHR 0x22] @ replicate 60 (CHR 0x5C)) @ [CHR ''Q'', CHR 0x0F, CHR 0xE8, CHR 0x1A]) = 1213929560"
    by (simp add: adler32_def adler32_u_def adler32_step_def replicate_60)
  have p2: "struct_pack_i Little (1213929560) = Inr [CHR ''X'', CHR 0x18, CHR ''['', CHR ''H'']"
    by (simp add: struct_pack_i_def char_of_def bit_iff_odd)
  have len: "length [CHR ''i'', CHR 0x09, CHR 0xE5, CHR ''~''] \<le> 64" by simp
  have l60: "64 - length [CHR ''i'', CHR 0x09, CHR 0xE5, CHR ''~''] = 60" by simp
  show ?thesis
    unfolding hmac_digest_adler_eq [OF len] l60 x36 x5c digest_def Let_def
      InsecureAdlerCRC32Digest.simps a1 p1 sum.case a2 p2 ..
qed

lemma b64_k0_ab: "base64_encode [CHR ''X'', CHR 0x18, CHR ''['', CHR ''H''] = ''WBhbSA''"
  by (simp add: base64_encode_def urlsafe_b64encode_def urlsafe_encode_translation_def
      b64_char_def char_of_def bit_iff_odd)

lemma hm_ko_42:
  "hmac_digest (InsecureAdlerCRC32Digest_class Little) [CHR 0xA0, CHR 0x05, CHR ''*'', CHR ''1''] ''principal-42'' = Inr [CHR 0x8C, CHR 0x19, CHR 0x99, CHR 0x81]"
proof -
  have x36: "translate_xor 0x36 ([CHR 0xA0, CHR 0x05, CHR ''*'', CHR ''1''] @ replicate 60 (CHR 0x00)) =
      [CHR 0x96, CHR ''3'', CHR 0x1C, CHR 0x07] @ replicate 60 (CHR ''6'')"
    by (simp add: translate_xor_def char_of_def bit_iff_odd)
  have x5c: "translate_xor 0x5C ([CHR 0xA0, CHR 0x05, CHR ''*'', CHR ''1''] @ replicate 60 (CHR 0x00)) =
      [CHR 0xFC, CHR ''Y'', CHR ''v'', CHR ''m''] @ replicate 60 (CHR 0x5C)"
    by (simp add: translate_xor_def char_of_def bit_iff_odd)
  have a1: "adler32 (([CHR 0x96, CHR ''3'', CHR 0x1C, CHR 0x07] @ replicate 60 (CHR ''6'')) @ ''principal-42'') = 2135495146"
    by (simp add: adler32_def adler32_u_def adler32_step_def replicate_60)
  have p1: "struct_pack_i Little (2135495146) = Inr [CHR 0xEA, CHR 0x11, CHR ''I'', CHR 0x7F]"
    by (simp add: struct_pack_i_def char_of_def bit_iff_odd)
  have a2: "adler32 (([CHR 0xFC, CHR ''Y'', CHR ''v'', CHR ''m''] @ replicate 60 (CHR 0x5C)) @ [CHR 0xEA, CHR 0x11, CHR ''I'', CHR 0x7F]) = - 2120672884"
    by (simp add: adler32_def adler32_u_def adler32_step_def replicate_60)
  have p2: "struct_pack_i Little (- 2120672884) = Inr [CHR 0x8C, CHR 0x19, CHR 0x99, CHR 0x81]"
    by (simp add: struct_pack_i_def char_of_def bit_iff_odd)
  have len: "length [CHR 0xA0, CHR 0x05, CHR ''*'', CHR ''1''] \<le> 64" by simp
  have l60: "64 - length [CHR 0xA0, CHR 0x05, CHR ''*'', CHR ''1''] = 60" by simp
  show ?thesis
    unfolding hmac_digest_adler_eq [OF len] l60 x36 x5c digest_def Let_def
      InsecureAdlerCRC32Digest.simps a1 p1 sum.case a2 p2 ..
qed

lemma b64_ko_42: "base64_encode [CHR 0x8C, CHR 0x19, CHR 0x99, CHR 0x81] = ''jBmZgQ''"
  by (simp add: base64_encode_def urlsafe_b64encode_def urlsafe_encode_translation_def
      b64_char_def char_of_def bit_iff_odd)

lemma hm_k0_e9:
  "hmac_digest (InsecureAdlerCRC32Digest_class Little) [CHR ''i'', CHR 0x09, CHR 0xE5, CHR ''~''] [CHR 0xC3, CHR 0xA9] = Inr [CHR 0xB7, CHR 0x18, CHR ''!'', CHR ''J'']"
proof -
  have x36: "translate_xor 0x36 ([CHR ''i'', CHR 0x09, CHR 0xE5, CHR ''~''] @ replicate 60 (CHR 0x00)) =
      [CHR ''_'', CHR ''?'', CHR 0xD3, CHR ''H''] @ replicate 60 (CHR ''6'')"
    by (simp add: translate_xor_def char_of_def bit_iff_odd)
  have x5c: "translate_xor 0x5C ([CHR ''i'', CHR 0x09, CHR 0xE5, CHR ''~''] @ replicate 60 (CHR 0x00)) =
      [CHR ''5'', CHR ''U'', CHR 0xB9, CHR 0x22] @ replicate 60 (CHR 0x5C)"
    by (simp add: translate_xor_def char_of_def bit_iff_odd)
  have a1: "adler32 (([CHR ''_'', CHR ''?'', CHR 0xD3, CHR ''H''] @ replicate 60 (CHR ''6'')) @ [CHR 0xC3, CHR 0xA9]) = 215486414"
    by (simp add: adler32_def adler32_u_def adler32_step_def replicate_60)
  have p1: "struct_pack_i Little (215486414) = Inr [CHR 0xCE, CHR 0x0F, CHR 0xD8, CHR 0x0C]"
    by (simp add: struct_pack_i_def char_of_def bit_iff_odd)
  have a2: "adler32 (([CHR ''5'', CHR ''U'', CHR 0xB9, CHR 0x22] @ replicate 60 (CHR 0x5C)) @ [CHR 0xCE, CHR 0x0F, CHR 0xD8, CHR 0x0C]) = 1243682999"
    by (simp add: adler32_def adler32_u_def adler32_step_def replicate_60)
  have p2: "struct_pack_i Little (1243682999) = Inr [CHR 0xB7, CHR 0x18, CHR ''!'', CHR ''J'']"
    by (simp add: struct_pack_i_def char_of_def bit_iff_odd)
  have len: "length [CHR ''i'', CHR 0x09, CHR 0xE5, CHR ''~''] \<le> 64" by simp
  have l60: "64 - length [CHR ''i'', CHR 0x09, CHR 0xE5, CHR ''~''] = 60" by simp
  show ?thesis
    unfolding hmac_digest_adler_eq [OF len] l60 x36 x5c digest_def Let_def
      InsecureAdlerCRC32Digest.simps a1 p1 sum.case a2 p2 ..
qed

lemma b64_k0_e9: "base64_encode [CHR 0xB7, CHR 0x18, CHR ''!'', CHR ''J''] = ''txghSg''"
  by (simp add: base64_encode_def urlsafe_b64encode_def urlsafe_encode_translation_def
      b64_char_def char_of_def bit_iff_odd)

lemma hm_k0_e9u:
  "hmac_digest (InsecureAdlerCRC32Digest_class Little) [CHR ''i'', CHR 0x09, CHR 0xE5, CHR ''~''] [CHR 0xC3, CHR 0x83, CHR 0xC2, CHR 0xA9] = Inr [CHR ''w'', CHR 0x17, CHR 0x0B, CHR ''F'']"
proof -
  have x36: "translate_xor 0x36 ([CHR ''i'', CHR 0x09, CHR 0xE5, CHR ''~''] @ replicate 60 (CHR 0x00)) =
      [CHR ''_'', CHR ''?'', CHR 0xD3, CHR ''H''] @ replicate 60 (CHR ''6'')"
    by (simp add: translate_xor_def char_of_def bit_iff_odd)
  have x5c: "translate_xor 0x5C ([CHR ''i'', CHR 0x09, CHR 0xE5, CHR ''~''] @ replicate 60 (CHR 0x00)) =
      [CHR ''5'', CHR ''U'', CHR 0xB9, CHR 0x22] @ replicate 60 (CHR 0x5C)"
    by (simp add: translate_xor_def char_of_def bit_iff_odd)
  have a1: "adler32 (([CHR ''_'', CHR ''?'', CHR 0xD3, CHR ''H''] @ replicate 60 (CHR ''6'')) @ [CHR 0xC3, CHR 0x83, CHR 0xC2, CHR 0xA9]) = 774836499"
    by (simp add: adler32_def adler32_u_def adler32_step_def replicate_60)
  have p1: "struct_pack_i Little (774836499) = Inr [CHR 0x13, CHR 0x11, CHR ''/'', CHR ''.'']"
    by (simp add: struct_pack_i_def char_of_def bit_iff_odd)
  have a2: "adler32 (([CHR ''5'', CHR ''U'', CHR 0xB9, CHR 0x22] @ replicate 60 (CHR 0x5C)) @ [CHR 0x13, CHR 0x11, CHR ''/'', CHR ''.'']) = 1175132023"
    by (simp add: adler32_def adler32_u_def adler32_step_def replicate_60)
  have p2: "struct_pack_i Little (1175132023) = Inr [CHR ''w'', CHR 0x17, CHR 0x0B, CHR ''F'']"
    by (simp add: struct_pack_i_def char_of_def bit_iff_odd)
  have len: "length [CHR ''i'', CHR 0x09, CHR 0xE5, CHR ''~''] \<le> 64" by simp
  have l60: "64 - length [CHR ''i'', CHR 0x09, CHR 0xE5, CHR ''~''] = 60" by simp
  show ?thesis
    unfolding hmac_digest_adler_eq [OF len] l60 x36 x5c digest_def Let_def
      InsecureAdlerCRC32Digest.simps a1 p1 sum.case a2 p2 ..
qed

lemma b64_k0_e9u: "base64_encode [CHR ''w'', CHR 0x17, CHR 0x0B, CHR ''F''] = ''dxcLRg''"
  by (simp add: base64_encode_def urlsafe_b64encode_def urlsafe_encode_translation_def
      b64_char_def char_of_def bit_iff_odd)

lemma sig_default_42: "get_signature (make_signer' env0 None) (Str ''principal-42'') = Inr ''YBmbSg''"
  unfolding get_signature_def want_bytes_def content.simps Let_def dk_default dm_default sum.case
    hm_k0_42 b64_k0_42 ..

lemma sig_default_ab: "get_signature (make_signer' env0 None) (Str ''a,b'') = Inr ''WBhbSA''"
  unfolding get_signature_def want_bytes_def content.simps Let_def dk_default dm_default sum.case
    hm_k0_ab b64_k0_ab ..

lemma sig_default_e9: "get_signature (make_signer' env0 None) (Str [CHR 0xC3, CHR 0xA9]) = Inr ''txghSg''"
  unfolding get_signature_def want_bytes_def content.simps Let_def dk_default dm_default sum.case
    hm_k0_e9 b64_k0_e9 ..

lemma sig_default_e9u: "get_signature (make_signer' env0 None) (Str [CHR 0xC3, CHR 0x83, CHR 0xC2, CHR 0xA9]) = Inr ''dxcLRg''"
  unfolding get_signature_def want_bytes_def content.simps Let_def dk_default dm_default sum.case
    hm_k0_e9u b64_k0_e9u ..

lemma sig_collide_42: "get_signature (make_signer env0 ''$Id$'' ''fkbil recipient'' (InsecureAdlerCRC32Digest_class Little)) (Str ''principal-42'') = Inr ''YBmbSg''"
  unfolding get_signature_def want_bytes_def content.simps Let_def dk_collide dm_collide sum.case
    hm_k0_42 b64_k0_42 ..

lemma sig_other_42: "get_signature (make_signer env0 ''$Id$'' ''other'' (InsecureAdlerCRC32Digest_class Little)) (Str ''principal-42'') = Inr ''jBmZgQ''"
  unfolding get_signature_def want_bytes_def content.simps Let_def dk_other dm_other sum.case
    hm_ko_42 b64_ko_42 ..

section \<open>Concrete runs: addresses\<close>

lemmas rfc822_defs = parseaddr_text_def AddressList_def getaddrspec_def getrouteaddr_def getatom_def
  getquote_def getcomment_def getdomainliteral_def getdelimited_def specials_def LWS_def CR_def
  atomends_def phraseends_def join_space_def dump_text_def

lemma find_default_realname_env0: "find_default_realname env0 = Unicode ''NextThought''"
  by (simp add: find_default_realname_def get_default_sender_def env0_def)

lemma quotable_NextThought: "quotable ''NextThought''"
  by (simp add: quotable_def)

lemma realname_from_bare:
  assumes "dot_atom l" and "l \<noteq> []" and "dot_atom d"
  shows "realname_from_recipients env0 (Unicode (l @ ''@'' @ d)) rs =
    Inr (Unicode (dump_text (''NextThought'', l @ ''@'' @ d)))"
  using parseaddr_text_bare [OF assms] assms(2)
  by (simp add: realname_from_recipients_def parseaddr_unicode find_default_realname_env0
      dump_address_pair_unicode)

lemma parse_sender:
  assumes "quotable rn" and "dot_atom l" and "l \<noteq> []" and "dot_atom d"
  shows "parseaddr (Unicode (dump_text (rn, l @ ''@'' @ d))) =
    Some (Unicode rn, Unicode (l @ ''@'' @ d))"
  using parseaddr_text_dump [OF assms] by (simp add: parseaddr_unicode)

lemma dot_atom_from: "dot_atom ''from''"
  by (simp add: atomends_def specials_def LWS_def CR_def)

lemma dot_atom_x_com: "dot_atom ''x.com''"
  by (simp add: atomends_def specials_def LWS_def CR_def)

lemma parse_bare_token:
  "parseaddr_text ''from+principal-42.YBmbSg'' = Some ([], ''from+principal-42.YBmbSg'')"
  by (simp add: rfc822_defs)

lemma parse_comma_plus: "parseaddr_text '',+'' = None"
  by (simp add: rfc822_defs)

lemma parse_escaped_name:
  "parseaddr_text ([CHR 0x22, CHR ''a'', CHR 0x5C, CHR 0x22, CHR ''b'', CHR 0x22] @ '' <x@y>'') =
     Some ([CHR ''a'', CHR 0x22, CHR ''b''], ''x@y'')"
  by (simp add: rfc822_defs)

lemma parse_unescaped_name:
  "parseaddr_text ([CHR 0x22, CHR ''a'', CHR 0x22, CHR ''b'', CHR 0x22] @ '' <x@y>'') =
     Some ([], ''a'')"
  by (simp add: rfc822_defs)

lemma parse_quoted_local:
  "parseaddr_text ([CHR 0x22] @ ''a@b'' @ [CHR 0x22] @ ''@c.com'') =
     Some ([], [CHR 0x22] @ ''a@b'' @ [CHR 0x22] @ ''@c.com'')"
  by (simp add: rfc822_defs)

lemma parse_sender_quoted_local:
  "parseaddr_text (dump_text (''NextThought'', [CHR 0x22] @ ''a@b'' @ [CHR 0x22] @ ''@c.com'')) =
     Some (''NextThought'', [CHR 0x22] @ ''a@b'' @ [CHR 0x22] @ ''@c.com'')"
  by (simp add: rfc822_defs)

lemma quote_42: "quote ''principal-42'' = ''principal-42''"
  by (simp add: quote_def quoter_def always_safe_def)

lemma quote_ab: "quote ''a,b'' = ''a%2Cb''"
  by (simp add: quote_def quoter_def always_safe_def hexdigit_def char_of_def bit_iff_odd)

lemma quote_e9: "quote [CHR 0xC3, CHR 0xA9] = ''%C3%A9''"
  by (simp add: quote_def quoter_def always_safe_def hexdigit_def char_of_def bit_iff_odd)

lemma unquote_unicode_e9: "unquote_unicode ''%C3%A9'' = [CHR 0xC3, CHR 0x83, CHR 0xC2, CHR 0xA9]"
  by (simp add: unhex_def utf8_latin1_def char_of_def bit_iff_odd)

lemma ids_single: "principal_ids_of env0 [p] = [p]"
  by (simp add: principal_ids_of_def env0_def List.map_filter_simps)

lemma ids_two: "principal_ids_of env0 [''p1'', ''p2''] = [''p1'', ''p2'']"
  by (simp add: principal_ids_of_def env0_def List.map_filter_simps)

lemma ids_none: "principal_ids_of env0 [] = []"
  by (simp add: principal_ids_of_def env0_def List.map_filter_simps)

lemma sign_default_42: "sign (make_signer' env0 None) ''principal-42'' = Inr ''principal-42.YBmbSg''"
  by (simp add: sign_def sig_default_42 quote_42)

lemma sign_default_ab: "sign (make_signer' env0 None) ''a,b'' = Inr ''a%2Cb.WBhbSA''"
  by (simp add: sign_def sig_default_ab quote_ab)

lemma sign_default_e9:
  "sign (make_signer' env0 None) [CHR 0xC3, CHR 0xA9] = Inr ''%C3%A9.txghSg''"
  by (simp add: sign_def sig_default_e9 quote_e9)





lemma b64d_e9: "base64_decode ''txghSg'' = Inr [CHR 0xB7, CHR 0x18, CHR ''!'', CHR ''J'']"
  using base64_decode_encode [of "[CHR 0xB7, CHR 0x18, CHR ''!'', CHR ''J'']"]
  by (simp only: b64_k0_e9)

section \<open>Encoding, then decoding\<close>

lemma dot_atom_no_at: "dot_atom s \<Longrightarrow> CHR ''@'' \<notin> set s"
  by (induction s) (auto simp: atomends_def specials_def)





text \<open>
  Encoding for one principal, then decoding: the ids are the pieces of the id between its
  commas. The id is ASCII; the display name and the address of the sender are unicode or
  ASCII, the name needs no escaping, and the address is \<open>local@domain\<close> with both parts made
  of atoms and dots.
\<close>

lemma verp_roundtrip_split:
  assumes ids: "principal_ids_of env recipients = [pid]"
    and pid: "ascii pid"
    and rn: "realname_from_recipients env fromaddr recipients = Inr sender"
    and parsed: "parseaddr sender = Some (realname, addr)"
    and dec: "decodable realname" "decodable addr"
    and q: "quotable (content realname)"
    and addr: "content addr = local @ ''@'' @ domain"
    and l: "dot_atom local" and d: "dot_atom domain" and plus: "CHR ''+'' \<notin> set domain"
  shows "\<exists>sig. get_signature (make_signer' env default_key) (Str pid) = Inr sig \<and>
     verp_from_recipients env fromaddr recipients default_key =
       Inr (Some (Unicode (dump_text
         (content realname, local @ ''+'' @ quote pid @ ''.'' @ sig @ ''@'' @ domain)))) \<and>
     principal_ids_from_verp env
       (Unicode (dump_text
         (content realname, local @ ''+'' @ quote pid @ ''.'' @ sig @ ''@'' @ domain))) default_key =
       Inr (map Unicode (split_char (CHR '','') pid))"
proof -
  let ?s = "make_signer' env default_key"
  obtain sig where sig: "get_signature ?s (Str pid) = Inr sig"
    and tok: "sign ?s pid = Inr (quote pid @ ''.'' @ sig)"
    and ds: "dot_atom sig" and nsep: "CHR ''.'' \<notin> set sig" and nplus: "CHR ''+'' \<notin> set sig"
    and nat: "CHR ''@'' \<notin> set sig"
    using sign_make_signer' [of env default_key pid] by blast
  have enc: "verp_from_recipients env fromaddr recipients default_key =
      Inr (Some (Unicode (dump_text
        (content realname, local @ ''+'' @ (quote pid @ ''.'' @ sig) @ ''@'' @ domain))))"
    by (rule verp_one_principal [OF ids rn parsed dec addr dot_atom_no_at [OF l]
          dot_atom_no_at [OF d] tok])
  have un: "unsign ?s (Unicode (pid @ CHR ''.'' # sig)) = Inr pid"
    using unsign_signed [OF sig, of "Unicode (pid @ ''.'' @ sig)"] nsep
    by (simp add: want_bytes_def)
  have sp: "split_u (CHR '','') (Str pid) = Inr (map Unicode (split_char (CHR '','') pid))"
    using pid by (simp add: split_u_def)
  have "principal_ids_from_verp env
       (Unicode (dump_text
         (content realname, local @ ''+'' @ quote pid @ ''.'' @ sig @ ''@'' @ domain))) default_key =
       Inr (map Unicode (split_char (CHR '','') pid))"
    using principal_ids_from_verp_dump [OF q l dot_atom_quote [of pid] ds d quote_no_plus [of pid]
        nplus plus quote_no_at [of pid] nat nsep, of env default_key]
    by (simp add: unquote_unicode_quote [OF pid] un sp)
  then show ?thesis using sig enc by auto
qed

section \<open>The claims\<close>

text \<open>
  C1 (amended). Round trip. For every ASCII principal id that contains no comma, and every
  sender whose display name and address are unicode or ASCII, whose display name needs no
  escaping inside double quotes and whose address is \<open>local@domain\<close> with both parts made of
  atoms and dots and no \<open>+\<close> in the domain: \<^verbatim>\<open>verp_from_recipients\<close> returns the sender with
  the address \<open>local+token@domain\<close>, where the token is the quoted id, a dot and the
  signature, and \<^verbatim>\<open>principal_ids_from_verp\<close> of that result is the list of that one id.
\<close>

theorem verp_roundtrip:
  assumes "principal_ids_of env recipients = [pid]"
    and "ascii pid" and "CHR '','' \<notin> set pid"
    and "realname_from_recipients env fromaddr recipients = Inr sender"
    and "parseaddr sender = Some (realname, addr)"
    and "decodable realname" and "decodable addr"
    and "quotable (content realname)"
    and "content addr = local @ ''@'' @ domain"
    and "dot_atom local" and "dot_atom domain" and "CHR ''+'' \<notin> set domain"
  shows "\<exists>sig. get_signature (make_signer' env default_key) (Str pid) = Inr sig \<and>
     verp_from_recipients env fromaddr recipients default_key =
       Inr (Some (Unicode (dump_text
         (content realname, local @ ''+'' @ quote pid @ ''.'' @ sig @ ''@'' @ domain)))) \<and>
     principal_ids_from_verp env
       (Unicode (dump_text
         (content realname, local @ ''+'' @ quote pid @ ''.'' @ sig @ ''@'' @ domain))) default_key =
       Inr [Unicode pid]"
  using verp_roundtrip_split [OF assms(1,2,4-12), of default_key] split_char_notin [OF assms(3)]
  by simp

theorem verp_roundtrip_witness:
  "verp_from_recipients env0 (Unicode ''from@x.com'') [''principal-42''] None =
     Inr (Some (Unicode
       ([CHR 0x22] @ ''NextThought'' @ [CHR 0x22] @ '' <from+principal-42.YBmbSg@x.com>''))) \<and>
   principal_ids_from_verp env0
     (Unicode ([CHR 0x22] @ ''NextThought'' @ [CHR 0x22] @ '' <from+principal-42.YBmbSg@x.com>''))
     None = Inr [Unicode ''principal-42'']"
proof -
  have a1: "principal_ids_of env0 [''principal-42''] = [''principal-42'']" by (rule ids_single)
  have a2: "ascii ''principal-42''" by simp
  have a3: "CHR '','' \<notin> set ''principal-42''" by simp
  have a4: "realname_from_recipients env0 (Unicode ''from@x.com'') [''principal-42''] =
      Inr (Unicode (dump_text (''NextThought'', ''from'' @ ''@'' @ ''x.com'')))"
    using realname_from_bare [OF dot_atom_from _ dot_atom_x_com] by simp
  have a5: "parseaddr (Unicode (dump_text (''NextThought'', ''from'' @ ''@'' @ ''x.com''))) =
      Some (Unicode ''NextThought'', Unicode (''from'' @ ''@'' @ ''x.com''))"
    by (rule parse_sender [OF quotable_NextThought dot_atom_from _ dot_atom_x_com]) simp
  have a6: "decodable (Unicode ''NextThought'')" by simp
  have a7: "decodable (Unicode (''from'' @ ''@'' @ ''x.com''))" by simp
  have a8: "quotable (content (Unicode ''NextThought''))" by (simp add: quotable_NextThought)
  have a9: "content (Unicode (''from'' @ ''@'' @ ''x.com'')) = ''from'' @ ''@'' @ ''x.com''" by simp
  have a12: "CHR ''+'' \<notin> set ''x.com''" by simp
  from verp_roundtrip [OF a1 a2 a3 a4 a5 a6 a7 a8 a9 dot_atom_from dot_atom_x_com a12, of None]
  show ?thesis by (simp add: sig_default_42 quote_42 dump_text_def)
qed

theorem verp_roundtrip_comma_counterexample:
  "verp_from_recipients env0 (Unicode ''from@x.com'') [''a,b''] None =
     Inr (Some (Unicode
       ([CHR 0x22] @ ''NextThought'' @ [CHR 0x22] @ '' <from+a%2Cb.WBhbSA@x.com>''))) \<and>
   principal_ids_from_verp env0
     (Unicode ([CHR 0x22] @ ''NextThought'' @ [CHR 0x22] @ '' <from+a%2Cb.WBhbSA@x.com>''))
     None = Inr [Unicode ''a'', Unicode ''b''] \<and>
   [Unicode ''a'', Unicode ''b''] \<noteq> [Unicode ''a,b'']"
proof -
  have a1: "principal_ids_of env0 [''a,b''] = [''a,b'']" by (rule ids_single)
  have a2: "ascii ''a,b''" by simp
  have a4: "realname_from_recipients env0 (Unicode ''from@x.com'') [''a,b''] =
      Inr (Unicode (dump_text (''NextThought'', ''from'' @ ''@'' @ ''x.com'')))"
    using realname_from_bare [OF dot_atom_from _ dot_atom_x_com] by simp
  have a5: "parseaddr (Unicode (dump_text (''NextThought'', ''from'' @ ''@'' @ ''x.com''))) =
      Some (Unicode ''NextThought'', Unicode (''from'' @ ''@'' @ ''x.com''))"
    by (rule parse_sender [OF quotable_NextThought dot_atom_from _ dot_atom_x_com]) simp
  have a6: "decodable (Unicode ''NextThought'')" by simp
  have a7: "decodable (Unicode (''from'' @ ''@'' @ ''x.com''))" by simp
  have a8: "quotable (content (Unicode ''NextThought''))" by (simp add: quotable_NextThought)
  have a9: "content (Unicode (''from'' @ ''@'' @ ''x.com'')) = ''from'' @ ''@'' @ ''x.com''" by simp
  have a12: "CHR ''+'' \<notin> set ''x.com''" by simp
  have s: "split_char (CHR '','') ''a,b'' = [''a'', ''b'']"
    by (simp add: split_char.simps)
  from verp_roundtrip_split [OF a1 a2 a4 a5 a6 a7 a8 a9 dot_atom_from dot_atom_x_com a12, of None]
  show ?thesis by (simp add: sig_default_ab quote_ab dump_text_def s)
qed

text \<open>
  The round trip also fails for an id that is not ASCII: \<^verbatim>\<open>unquote\<close> of the unicode address
  gives the Latin-1 characters of the id's bytes, \<^verbatim>\<open>want_bytes\<close> encodes them again, and
  the signature is checked over those other bytes.
\<close>

lemma verp_roundtrip_non_ascii:
  "verp_from_recipients env0 (Unicode ''from@x.com'') [[CHR 0xC3, CHR 0xA9]] None =
     Inr (Some (Unicode
       ([CHR 0x22] @ ''NextThought'' @ [CHR 0x22] @ '' <from+%C3%A9.txghSg@x.com>''))) \<and>
   principal_ids_from_verp env0
     (Unicode ([CHR 0x22] @ ''NextThought'' @ [CHR 0x22] @ '' <from+%C3%A9.txghSg@x.com>''))
     None = Inr []"
proof -
  let ?pid = "[CHR 0xC3, CHR 0xA9]"
  have a1: "principal_ids_of env0 [?pid] = [?pid]" by (rule ids_single)
  have a4: "realname_from_recipients env0 (Unicode ''from@x.com'') [?pid] =
      Inr (Unicode (dump_text (''NextThought'', ''from'' @ ''@'' @ ''x.com'')))"
    using realname_from_bare [OF dot_atom_from _ dot_atom_x_com] by simp
  have a5: "parseaddr (Unicode (dump_text (''NextThought'', ''from'' @ ''@'' @ ''x.com''))) =
      Some (Unicode ''NextThought'', Unicode (''from'' @ ''@'' @ ''x.com''))"
    by (rule parse_sender [OF quotable_NextThought dot_atom_from _ dot_atom_x_com]) simp
  have a6: "decodable (Unicode ''NextThought'')" by simp
  have a7: "decodable (Unicode (''from'' @ ''@'' @ ''x.com''))" by simp
  have a9: "content (Unicode (''from'' @ ''@'' @ ''x.com'')) = ''from'' @ ''@'' @ ''x.com''" by simp
  have e: "verp_from_recipients env0 (Unicode ''from@x.com'') [?pid] None =
      Inr (Some (Unicode (dump_text
        (content (Unicode ''NextThought''), ''from'' @ ''+'' @ ''%C3%A9.txghSg'' @ ''@'' @ ''x.com''))))"
    by (rule verp_one_principal [OF a1 a4 a5 a6 a7 a9 _ _ sign_default_e9]) simp_all
  have ne: "base64_decode ''txghSg'' \<noteq> Inr [CHR ''w'', CHR 0x17, CHR 0x0B, CHR ''F'']"
    by (simp add: b64d_e9)
  have u: "unsign (make_signer' env0 None)
      (Unicode ([CHR 0xC3, CHR 0x83, CHR 0xC2, CHR 0xA9] @ ''.'' @ ''txghSg'')) = Inl BadSignature"
    by (rule unsign_other [OF dk_default _ ne]) (simp_all add: hm_k0_e9u want_bytes_def env0_def)
  have d0: "principal_ids_from_verp env0
      (Unicode (dump_text (''NextThought'', ''from'' @ ''+'' @ ''%C3%A9'' @ ''.'' @ ''txghSg'' @ ''@'' @ ''x.com'')))
      None =
      (case unsign (make_signer' env0 None) (Unicode (unquote_unicode ''%C3%A9'' @ ''.'' @ ''txghSg'')) of
         Inl e \<Rightarrow> if e = BadSignature then Inr [] else Inl e
       | Inr pids \<Rightarrow> split_u (CHR '','') (Str pids))"
    by (rule principal_ids_from_verp_dump [OF quotable_NextThought dot_atom_from _ _ dot_atom_x_com])
      (simp_all add: atomends_def specials_def LWS_def CR_def)
  have d: "principal_ids_from_verp env0
      (Unicode (dump_text (''NextThought'', ''from'' @ ''+'' @ ''%C3%A9'' @ ''.'' @ ''txghSg'' @ ''@'' @ ''x.com'')))
      None = Inr []"
    unfolding d0 unquote_unicode_e9 u by simp
  from e d show ?thesis by (simp add: dump_text_def)
qed

text \<open>
  C2 (amended). \<^verbatim>\<open>__make_signer\<close> never fails. The secret of the signer is the secret of the
  mailer policy when one is registered; with no policy it is the key given, and the built-in
  \<^verbatim>\<open>$Id$\<close> when the key is missing or empty. The signer signs every message.
\<close>

theorem make_signer_secret:
  "secret_key (make_signer' env default_key) =
     (case queryUtility_IMailerPolicy env of
        Some policy \<Rightarrow> policy_get_signer_secret policy
      | None \<Rightarrow> if default_key = None \<or> default_key = Some [] then ''$Id$'' else the default_key) \<and>
   (\<exists>sig. get_signature (make_signer' env default_key) m = Inr sig)"
  using get_signature_adler [OF digest_method_make_signer', of env default_key m]
  by (simp add: make_signer'_def make_signer_def get_signer_secret_def Signer_def
      split: option.splits)

theorem make_signer_secret_witness:
  "secret_key (make_signer' env0 (Some ''key'')) = ''key'' \<and>
   (\<exists>sig. get_signature (make_signer' env0 (Some ''key'')) (Str ''m'') = Inr sig)"
  using make_signer_secret [of env0 "Some ''key''" "Str ''m''"] by (simp add: env0_def)

theorem make_signer_empty_secret_counterexample:
  "make_signer' env0 (Some []) =
     \<lparr>secret_key = ''$Id$'', salt = ''email recipient'', sep = CHR ''.'',
      digest_method = InsecureAdlerCRC32Digest_class Little\<rparr> \<and>
   make_signer'
     (env0\<lparr>queryUtility_IMailerPolicy :=
        Some \<lparr>policy_get_signer_secret = [], policy_get_default_sender = None\<rparr>\<rparr>) None =
     \<lparr>secret_key = [], salt = ''email recipient'', sep = CHR ''.'',
      digest_method = InsecureAdlerCRC32Digest_class Little\<rparr> \<and>
   sign (make_signer' env0 (Some [])) ''principal-42'' = Inr ''principal-42.YBmbSg''"
proof -
  have "make_signer' env0 (Some []) = make_signer' env0 None" by (simp add: make_signer'_def)
  then show ?thesis
    by (simp add: sign_default_42)
      (simp add: make_signer'_def make_signer_def get_signer_secret_def Signer_def env0_def)
qed

text \<open>
  C3 (amended). The first test of \<^verbatim>\<open>principal_ids_from_verp\<close> is on \<open>+\<close>, not on \<open>@\<close>: every
  candidate without \<open>+\<close> that is a unicode object or an ASCII byte string gives the empty
  result, whether or not it contains \<open>@\<close>.
\<close>

theorem decode_without_plus_is_empty:
  assumes "CHR ''+'' \<notin> set (content fromaddr)" and "decodable fromaddr"
  shows "principal_ids_from_verp env fromaddr default_key = Inr []"
  using assms by (simp add: principal_ids_from_verp_def contains_u_def)

theorem decode_without_plus_is_empty_witness:
  "principal_ids_from_verp env0 (Unicode ''plain@example.com'') None = Inr [] \<and>
   principal_ids_from_verp env0 (Unicode ''no-at-sign'') None = Inr []"
proof -
  have a: "CHR ''+'' \<notin> set (content (Unicode ''plain@example.com''))" by simp
  have b: "CHR ''+'' \<notin> set (content (Unicode ''no-at-sign''))" by simp
  show ?thesis
    using decode_without_plus_is_empty [OF a, of env0 None]
      decode_without_plus_is_empty [OF b, of env0 None] by simp
qed

theorem decode_without_at_counterexample:
  "CHR ''@'' \<notin> set ''from+principal-42.YBmbSg'' \<and>
   principal_ids_from_verp env0 (Unicode ''from+principal-42.YBmbSg'') None =
     Inr [Unicode ''principal-42'']"
proof -
  let ?s = "make_signer' env0 None"
  have r1: "rsplit1 (CHR ''+'') ''from+principal-42.YBmbSg'' = [''from'', ''principal-42.YBmbSg'']"
    by (simp add: rsplit1_def)
  have s1: "split_char (CHR ''@'') ''principal-42.YBmbSg'' = [''principal-42.YBmbSg'']"
    by (rule split_char_notin) simp
  have r2: "rsplit1 (CHR ''.'') ''principal-42.YBmbSg'' = [''principal-42'', ''YBmbSg'']"
    by (simp add: rsplit1_def)
  have uq: "unquote_unicode ''principal-42'' = ''principal-42''"
    using unquote_unicode_quote [of "''principal-42''"] by (simp add: quote_42)
  have un: "unsign ?s (Unicode ''principal-42.YBmbSg'') = Inr ''principal-42''"
    using unsign_signed [OF sig_default_42, of "Unicode ''principal-42.YBmbSg''"]
    by (simp add: want_bytes_def)
  have sp: "split_u (CHR '','') (Str ''principal-42'') = Inr [Unicode ''principal-42'']"
    by (simp add: split_u_def split_char_notin)
  have a: "principal_ids_from_addr ?s (Unicode ''from+principal-42.YBmbSg'') =
      Inr [Unicode ''principal-42'']"
    by (simp add: principal_ids_from_addr_def r1 s1 r2 uq un sp)
  have "principal_ids_from_verp env0 (Unicode ''from+principal-42.YBmbSg'') None =
      Inr [Unicode ''principal-42'']"
    unfolding principal_ids_from_verp_def
    using a by (simp add: contains_u_def parseaddr_unicode parse_bare_token)
  then show ?thesis by simp
qed

text \<open>
  C4. \<^verbatim>\<open>principal_ids_from_verp\<close> raises on the two-character input \<^verbatim>\<open>,+\<close>, as a unicode
  object and as a byte string: \<^verbatim>\<open>rfc822.parseaddr\<close> finds no address and returns
  \<^verbatim>\<open>(None, None)\<close>, and the test \<^verbatim>\<open>'+' not in addr\<close> on \<^verbatim>\<open>None\<close> is a \<^verbatim>\<open>TypeError\<close>.
\<close>

theorem decode_raises_type_error:
  "principal_ids_from_verp env (Unicode '',+'') default_key = Inl TypeError \<and>
   principal_ids_from_verp env (Str '',+'') default_key = Inl TypeError"
  by (simp add: principal_ids_from_verp_def contains_u_def parseaddr_def parse_comma_plus)




text \<open>
  C6 (amended). Salt isolation. A token signed under one salt, decoded by a signer with the
  same secret and digest method under another salt, gives the empty result exactly when the
  two signers sign the message differently. Two salts whose derived keys are equal (the key
  is an Adler-32 checksum, so such salts exist) accept each other's tokens.
\<close>

theorem other_salt_rejects_unless_signatures_agree:
  assumes s1: "get_signature (make_signer env key salt1 dm) (Str m) = Inr sig1"
    and s2: "get_signature (make_signer env key salt2 dm) (Str m) = Inr sig2"
    and m: "ascii m" and plus: "CHR ''+'' \<notin> set domain"
  shows "principal_ids_from_addr (make_signer env key salt2 dm)
           (Unicode (local @ ''+'' @ quote m @ ''.'' @ sig1 @ ''@'' @ domain)) =
         (if sig1 = sig2 then Inr (map Unicode (split_char (CHR '','') m)) else Inr [])"
proof -
  let ?s2 = "make_signer env key salt2 dm"
  obtain k1 c1 where sc1: "sig1 = base64_encode c1"
    using get_signature_InrD [OF s1] by blast
  obtain k2 c2 where key2: "derive_key ?s2 = Inr k2"
    and code2: "hmac_digest (digest_method ?s2) k2 m = Inr c2"
    and sc2: "sig2 = base64_encode c2"
    using get_signature_InrD [OF s2] by (auto simp: want_bytes_def)
  have nsep: "CHR ''.'' \<notin> set sig1" and nplus: "CHR ''+'' \<notin> set sig1"
    and nat: "CHR ''@'' \<notin> set sig1"
    using sc1 by (simp_all add: base64_encode_no_sep base64_encode_no_plus base64_encode_no_at)
  have ca: "content (Unicode (local @ ''+'' @ quote m @ ''.'' @ sig1 @ ''@'' @ domain)) =
      local @ ''+'' @ quote m @ ''.'' @ sig1 @ ''@'' @ domain" by simp
  have t: "principal_ids_from_addr ?s2
      (Unicode (local @ ''+'' @ quote m @ ''.'' @ sig1 @ ''@'' @ domain)) =
      (case unsign ?s2 (Unicode (m @ CHR ''.'' # sig1)) of
         Inl e \<Rightarrow> if e = BadSignature then Inr [] else Inl e
       | Inr pids \<Rightarrow> split_u (CHR '','') (Str pids))"
    using principal_ids_from_addr_token [OF ca quote_no_plus [of m] nplus plus quote_no_at [of m]
        nat _ nsep, of ?s2]
    by (simp add: unquote_unicode_quote [OF m])
  show ?thesis
  proof (cases "sig1 = sig2")
    case True
    have "unsign ?s2 (Unicode (m @ CHR ''.'' # sig1)) = Inr m"
      using unsign_signed [OF s2, of "Unicode (m @ CHR ''.'' # sig1)"] nsep True
      by (simp add: want_bytes_def)
    then show ?thesis using t True m by (simp add: split_u_def)
  next
    case False
    have "base64_decode sig1 = Inr c1" using sc1 by (simp add: base64_decode_encode)
    moreover have "c1 \<noteq> c2" using False sc1 sc2 by auto
    ultimately have ne: "base64_decode sig1 \<noteq> Inr c2" by simp
    have "unsign ?s2 (Unicode (m @ CHR ''.'' # sig1)) = Inl BadSignature"
      by (rule unsign_other [OF key2 code2 ne]) (simp_all add: nsep want_bytes_def)
    then show ?thesis using t False by simp
  qed
qed

theorem other_salt_rejects_witness:
  "principal_ids_from_addr
     (make_signer env0 ''$Id$'' ''other'' (InsecureAdlerCRC32Digest_class Little))
     (Unicode ''from+principal-42.jBmZgQ@x.com'') = Inr [Unicode ''principal-42''] \<and>
   principal_ids_from_addr
     (make_signer env0 ''$Id$'' ''fkbil recipient'' (InsecureAdlerCRC32Digest_class Little))
     (Unicode ''from+principal-42.jBmZgQ@x.com'') = Inr []"
proof -
  have a3: "ascii ''principal-42''" by simp
  have a4: "CHR ''+'' \<notin> set ''x.com''" by simp
  have s: "split_char (CHR '','') ''principal-42'' = [''principal-42'']"
    by (rule split_char_notin) simp
  from other_salt_rejects_unless_signatures_agree [OF sig_other_42 sig_other_42 a3 a4, of "''from''"]
    other_salt_rejects_unless_signatures_agree [OF sig_other_42 sig_collide_42 a3 a4, of "''from''"]
  show ?thesis by (simp add: quote_42 s)
qed

theorem salt_collision_counterexample:
  "''email recipient'' \<noteq> ''fkbil recipient'' \<and>
   make_signer' env0 None =
     make_signer env0 ''$Id$'' ''email recipient'' (InsecureAdlerCRC32Digest_class Little) \<and>
   sign (make_signer env0 ''$Id$'' ''email recipient'' (InsecureAdlerCRC32Digest_class Little))
     ''principal-42'' = Inr ''principal-42.YBmbSg'' \<and>
   principal_ids_from_addr
     (make_signer env0 ''$Id$'' ''fkbil recipient'' (InsecureAdlerCRC32Digest_class Little))
     (Unicode ''from+principal-42.YBmbSg@x.com'') = Inr [Unicode ''principal-42'']"
proof -
  let ?s2 = "make_signer env0 ''$Id$'' ''fkbil recipient'' (InsecureAdlerCRC32Digest_class Little)"
  have eq: "make_signer' env0 None =
      make_signer env0 ''$Id$'' ''email recipient'' (InsecureAdlerCRC32Digest_class Little)"
    by (simp add: make_signer'_def env0_def)
  have sg: "sign (make_signer env0 ''$Id$'' ''email recipient'' (InsecureAdlerCRC32Digest_class Little))
     ''principal-42'' = Inr ''principal-42.YBmbSg''"
    using sign_default_42 by (simp only: eq)
  have un: "unsign ?s2 (Unicode ''principal-42.YBmbSg'') = Inr ''principal-42''"
    using unsign_signed [OF sig_collide_42, of "Unicode ''principal-42.YBmbSg''"]
    by (simp add: want_bytes_def)
  have uq: "unquote_unicode ''principal-42'' = ''principal-42''"
    using unquote_unicode_quote [of "''principal-42''"] by (simp add: quote_42)
  have sp: "split_u (CHR '','') (Str ''principal-42'') = Inr [Unicode ''principal-42'']"
    by (simp add: split_u_def split_char_notin)
  have ca: "content (Unicode ''from+principal-42.YBmbSg@x.com'') =
      ''from'' @ ''+'' @ ''principal-42'' @ ''.'' @ ''YBmbSg'' @ ''@'' @ ''x.com''" by simp
  have t: "principal_ids_from_addr ?s2 (Unicode ''from+principal-42.YBmbSg@x.com'') =
      (case py_sum (unquote (like (Unicode ''from+principal-42.YBmbSg@x.com'') ''principal-42''))
              [Str ''.'', like (Unicode ''from+principal-42.YBmbSg@x.com'') ''YBmbSg''] of
         Inl e \<Rightarrow> Inl e
       | Inr signed \<Rightarrow>
           (case unsign ?s2 signed of
              Inl e \<Rightarrow> if e = BadSignature then Inr [] else Inl e
            | Inr pids \<Rightarrow> split_u (CHR '','') (Str pids)))"
    by (rule principal_ids_from_addr_token [OF ca]) simp_all
  have "principal_ids_from_addr ?s2 (Unicode ''from+principal-42.YBmbSg@x.com'') =
      Inr [Unicode ''principal-42'']"
    unfolding t like.simps unquote.simps uq by (simp add: un sp)
  with eq sg show ?thesis by simp
qed

text \<open>
  C8. With no principal id, or more than one, \<^verbatim>\<open>verp_from_recipients\<close> embeds no token: it
  formats the parsed sender again. The sender has been formatted by \<^verbatim>\<open>dump_address_pair\<close>,
  which does not escape a double quote in the display name, and is parsed a second time. For
  the input \<^verbatim>\<open>"a\"b" <x@y>\<close>, whose address is \<^verbatim>\<open>x@y\<close>, the formatted sender is
  \<^verbatim>\<open>"a"b" <x@y>\<close>; it parses to the address \<^verbatim>\<open>a\<close>, and the result is \<^verbatim>\<open>a\<close>: the input
  address is lost.
\<close>

theorem verp_skip_loses_address:
  "parseaddr (Unicode ([CHR 0x22, CHR ''a'', CHR 0x5C, CHR 0x22, CHR ''b'', CHR 0x22] @ '' <x@y>'')) =
     Some (Unicode [CHR ''a'', CHR 0x22, CHR ''b''], Unicode ''x@y'') \<and>
   principal_ids_of env0 [] = [] \<and>
   verp_from_recipients env0
     (Unicode ([CHR 0x22, CHR ''a'', CHR 0x5C, CHR 0x22, CHR ''b'', CHR 0x22] @ '' <x@y>''))
     [] None = Inr (Some (Unicode ''a''))"
proof -
  let ?in = "[CHR 0x22, CHR ''a'', CHR 0x5C, CHR 0x22, CHR ''b'', CHR 0x22] @ '' <x@y>''"
  let ?sender = "[CHR 0x22, CHR ''a'', CHR 0x22, CHR ''b'', CHR 0x22] @ '' <x@y>''"
  have p1: "parseaddr (Unicode ?in) =
      Some (Unicode [CHR ''a'', CHR 0x22, CHR ''b''], Unicode ''x@y'')"
    using parse_escaped_name by (simp add: parseaddr_unicode)
  have r: "realname_from_recipients env0 (Unicode ?in) [] = Inr (Unicode ?sender)"
    unfolding realname_from_recipients_def p1 by (simp add: dump_address_pair_def)
  have p2: "parseaddr (Unicode ?sender) = Some (Unicode [], Unicode ''a'')"
    using parse_unescaped_name by (simp add: parseaddr_unicode)
  have "verp_from_recipients env0 (Unicode ?in) [] None = Inr (Some (Unicode ''a''))"
    unfolding verp_from_recipients_def r using p2 by (simp add: ids_none dump_address_pair_def)
  with p1 ids_none show ?thesis by simp
qed

text \<open>
  What holds of the branch: with a number of ids other than one the result is the parsed
  sender formatted again, with no token; and for a unicode sender whose display name needs no
  escaping and whose address is made of atoms and dots, that is the sender itself.
\<close>

lemma verp_skips_embedding:
  assumes "length (principal_ids_of env recipients) \<noteq> 1"
  shows "verp_from_recipients env fromaddr recipients default_key =
    (case realname_from_recipients env fromaddr recipients of
       Inl e \<Rightarrow> Inl e
     | Inr sender \<Rightarrow>
         (case parseaddr sender of
            None \<Rightarrow> Inr None
          | Some pair \<Rightarrow> map_sum id Some (dump_address_pair pair)))"
  using assms by (simp add: verp_from_recipients_def Let_def split: sum.splits)

lemma verp_skips_embedding_plain:
  assumes "length (principal_ids_of env recipients) \<noteq> 1"
    and "realname_from_recipients env fromaddr recipients =
      Inr (Unicode (dump_text (rn, local @ ''@'' @ domain)))"
    and "quotable rn" and "dot_atom local" and "local \<noteq> []" and "dot_atom domain"
  shows "verp_from_recipients env fromaddr recipients default_key =
    Inr (Some (Unicode (dump_text (rn, local @ ''@'' @ domain))))"
  using parseaddr_text_dump [OF assms(3-6)]
  by (simp add: verp_skips_embedding [OF assms(1)] assms(2) parseaddr_unicode
      dump_address_pair_unicode)

text \<open>
  C9 (amended). With one principal id, \<^verbatim>\<open>verp_from_recipients\<close> splits the parsed address of
  the sender at \<open>@\<close> into exactly two pieces. When the address holds one \<open>@\<close> the result is
  the sender with the address \<open>local + '+' + token + '@' + domain\<close>; when it holds none, or
  more than one, the call fails with \<^verbatim>\<open>ValueError\<close>. (The display name and the address are
  unicode or ASCII.)
\<close>

lemma count_list_one:
  assumes "count_list s c = 1"
  shows "\<exists>l d. s = l @ c # d \<and> c \<notin> set l \<and> c \<notin> set d"
proof -
  have "c \<in> set s" using assms by (metis count_list_0_iff zero_neq_one)
  then obtain l d where s: "s = l @ c # d" and l: "c \<notin> set l" by (meson split_list_first)
  have "count_list l c = 0" using l by (simp add: count_list_0_iff)
  then have "count_list d c = 0" using assms s by simp
  then have "c \<notin> set d" by (simp add: count_list_0_iff)
  with s l show ?thesis by blast
qed

theorem verp_splits_at_single_at:
  assumes ids: "principal_ids_of env recipients = [pid]"
    and rn: "realname_from_recipients env fromaddr recipients = Inr sender"
    and parsed: "parseaddr sender = Some (realname, addr)"
    and dec: "decodable realname" "decodable addr"
  shows "(count_list (content addr) (CHR ''@'') \<noteq> 1 \<longrightarrow>
            verp_from_recipients env fromaddr recipients default_key = Inl ValueError) \<and>
         (count_list (content addr) (CHR ''@'') = 1 \<longrightarrow>
            (\<exists>local domain token.
               content addr = local @ ''@'' @ domain \<and>
               CHR ''@'' \<notin> set local \<and> CHR ''@'' \<notin> set domain \<and>
               sign (make_signer' env default_key) pid = Inr token \<and>
               verp_from_recipients env fromaddr recipients default_key =
                 Inr (Some (Unicode (dump_text
                   (content realname, local @ ''+'' @ token @ ''@'' @ domain))))))"
proof (intro conjI impI)
  obtain token where tok: "sign (make_signer' env default_key) pid = Inr token"
    using sign_make_signer' [of env default_key pid] by blast
  {
    assume n: "count_list (content addr) (CHR ''@'') \<noteq> 1"
    have len: "length (split_char (CHR ''@'') (content addr)) \<noteq> 2"
      using n by (simp add: length_split_char)
    have su: "split_u (CHR ''@'') addr = Inr (map Unicode (split_char (CHR ''@'') (content addr)))"
      using dec(2) by (simp add: split_u_def)
    have "(case map Unicode (split_char (CHR ''@'') (content addr)) of
             [local, domain] \<Rightarrow>
               (case py_sum local [Unicode ''+'', Str token, Unicode ''@'', domain] of
                  Inl e \<Rightarrow> Inl e
                | Inr addr \<Rightarrow> map_sum id Some (dump_address_pair (realname, addr)))
           | _ \<Rightarrow> Inl ValueError) = Inl ValueError"
      using len by (auto split: list.splits)
    then show "verp_from_recipients env fromaddr recipients default_key = Inl ValueError"
      unfolding verp_from_recipients_def by (simp add: rn parsed ids tok su Let_def)
  }
  {
    assume "count_list (content addr) (CHR ''@'') = 1"
    then obtain local domain where a: "content addr = local @ ''@'' @ domain"
      and l: "CHR ''@'' \<notin> set local" and d: "CHR ''@'' \<notin> set domain"
      using count_list_one [of "content addr" "CHR ''@''"] by auto
    have "verp_from_recipients env fromaddr recipients default_key =
        Inr (Some (Unicode (dump_text (content realname, local @ ''+'' @ token @ ''@'' @ domain))))"
      by (rule verp_one_principal [OF ids rn parsed dec a l d tok])
    with a l d tok
    show "\<exists>local domain token.
               content addr = local @ ''@'' @ domain \<and>
               CHR ''@'' \<notin> set local \<and> CHR ''@'' \<notin> set domain \<and>
               sign (make_signer' env default_key) pid = Inr token \<and>
               verp_from_recipients env fromaddr recipients default_key =
                 Inr (Some (Unicode (dump_text
                   (content realname, local @ ''+'' @ token @ ''@'' @ domain))))"
      by blast
  }
qed

theorem verp_splits_at_single_at_witness:
  "count_list ''from@x.com'' (CHR ''@'') = 1 \<and>
   verp_from_recipients env0 (Unicode ''from@x.com'') [''principal-42''] None =
     Inr (Some (Unicode
       ([CHR 0x22] @ ''NextThought'' @ [CHR 0x22] @ '' <from+principal-42.YBmbSg@x.com>'')))"
proof -
  have a1: "principal_ids_of env0 [''principal-42''] = [''principal-42'']" by (rule ids_single)
  have a2: "realname_from_recipients env0 (Unicode ''from@x.com'') [''principal-42''] =
      Inr (Unicode (dump_text (''NextThought'', ''from'' @ ''@'' @ ''x.com'')))"
    using realname_from_bare [OF dot_atom_from _ dot_atom_x_com] by simp
  have a3: "parseaddr (Unicode (dump_text (''NextThought'', ''from'' @ ''@'' @ ''x.com''))) =
      Some (Unicode ''NextThought'', Unicode ''from@x.com'')"
    using parse_sender [OF quotable_NextThought dot_atom_from _ dot_atom_x_com] by simp
  have a4: "decodable (Unicode ''NextThought'')" by simp
  have a5: "decodable (Unicode ''from@x.com'')" by simp
  have c: "count_list ''from@x.com'' (CHR ''@'') = 1" by simp
  have s: "split_char (CHR ''@'') ''from@x.com'' = [''from'', ''x.com'']"
    by (simp add: split_char.simps)
  from verp_splits_at_single_at [OF a1 a2 a3 a4 a5, of None] c
  obtain local domain token where
    a: "''from@x.com'' = local @ ''@'' @ domain" and l: "CHR ''@'' \<notin> set local"
    and tk: "sign (make_signer' env0 None) ''principal-42'' = Inr token"
    and v: "verp_from_recipients env0 (Unicode ''from@x.com'') [''principal-42''] None =
      Inr (Some (Unicode (dump_text (content (Unicode ''NextThought''),
        local @ ''+'' @ token @ ''@'' @ domain))))"
    by auto
  have "split_char (CHR ''@'') (local @ CHR ''@'' # domain) = local # split_char (CHR ''@'') domain"
    using l by (rule split_char_append)
  then have "local # split_char (CHR ''@'') domain = [''from'', ''x.com'']"
    using a s by simp
  then have ld: "local = ''from''" "split_char (CHR ''@'') domain = [''x.com'']" by simp_all
  have "domain = ''x.com''" using a ld(1) by simp
  with ld(1) tk v c show ?thesis by (simp add: sign_default_42 dump_text_def)
qed

theorem verp_two_at_counterexample:
  "CHR ''@'' \<in> set ([CHR 0x22] @ ''a@b'' @ [CHR 0x22] @ ''@c.com'') \<and>
   parseaddr (Unicode ([CHR 0x22] @ ''a@b'' @ [CHR 0x22] @ ''@c.com'')) =
     Some (Unicode [], Unicode ([CHR 0x22] @ ''a@b'' @ [CHR 0x22] @ ''@c.com'')) \<and>
   verp_from_recipients env0 (Unicode ([CHR 0x22] @ ''a@b'' @ [CHR 0x22] @ ''@c.com''))
     [''principal-42''] None = Inl ValueError"
proof -
  let ?a = "[CHR 0x22] @ ''a@b'' @ [CHR 0x22] @ ''@c.com''"
  have p1: "parseaddr (Unicode ?a) = Some (Unicode [], Unicode ?a)"
    using parse_quoted_local by (simp add: parseaddr_unicode)
  have a1: "principal_ids_of env0 [''principal-42''] = [''principal-42'']" by (rule ids_single)
  have a2: "realname_from_recipients env0 (Unicode ?a) [''principal-42''] =
      Inr (Unicode (dump_text (''NextThought'', ?a)))"
    unfolding realname_from_recipients_def p1
    by (simp add: find_default_realname_env0 dump_address_pair_def dump_text_def)
  have a3: "parseaddr (Unicode (dump_text (''NextThought'', ?a))) =
      Some (Unicode ''NextThought'', Unicode ?a)"
    using parse_sender_quoted_local by (simp add: parseaddr_unicode)
  have a4: "decodable (Unicode ''NextThought'')" by simp
  have a5: "decodable (Unicode ?a)" by simp
  have c: "count_list (content (Unicode ?a)) (CHR ''@'') \<noteq> 1" by simp
  from verp_splits_at_single_at [OF a1 a2 a3 a4 a5, of None] c
  have "verp_from_recipients env0 (Unicode ?a) [''principal-42''] None = Inl ValueError"
    by blast
  with p1 show ?thesis by simp
qed

text \<open>
  C10. \<^verbatim>\<open>unsign\<close> returns a byte string and \<^verbatim>\<open>pids.split(',')\<close> splits it at a unicode
  literal, which first decodes the bytes as ASCII. For a recovered message that is ASCII the
  result is the list of its pieces between commas, one more than it has commas. For a
  recovered message with a byte of 128 or more the signature verifies and the split raises
  \<^verbatim>\<open>UnicodeDecodeError\<close>: so for the byte string \<^verbatim>\<open>from+%C3%A9.txghSg@x.com\<close>, which carries the
  token made for the id U+00E9, and for the unicode \<^verbatim>\<open>from+%C3%A9.dxcLRg@x.com\<close>.
\<close>

theorem decode_split_raises_on_non_ascii:
  "unsign (make_signer' env0 None) (Str ([CHR 0xC3, CHR 0xA9] @ ''.txghSg'')) =
     Inr [CHR 0xC3, CHR 0xA9] \<and>
   principal_ids_from_verp env0 (Str ''from+%C3%A9.txghSg@x.com'') None = Inl UnicodeDecodeError \<and>
   unsign (make_signer' env0 None)
     (Unicode ([CHR 0xC3, CHR 0x83, CHR 0xC2, CHR 0xA9] @ ''.dxcLRg'')) =
     Inr [CHR 0xC3, CHR 0x83, CHR 0xC2, CHR 0xA9] \<and>
   principal_ids_from_verp env0 (Unicode ''from+%C3%A9.dxcLRg@x.com'') None =
     Inl UnicodeDecodeError"
proof -
  let ?s = "make_signer' env0 None"
  have da: "dot_atom ''from+%C3%A9.txghSg''" "dot_atom ''from+%C3%A9.dxcLRg''"
    by (simp_all add: atomends_def specials_def LWS_def CR_def)
  have p1: "parseaddr_text (''from+%C3%A9.txghSg'' @ ''@'' @ ''x.com'') =
      Some ([], ''from+%C3%A9.txghSg'' @ ''@'' @ ''x.com'')"
    by (rule parseaddr_text_bare [OF da(1) _ dot_atom_x_com]) simp
  have p2: "parseaddr_text (''from+%C3%A9.dxcLRg'' @ ''@'' @ ''x.com'') =
      Some ([], ''from+%C3%A9.dxcLRg'' @ ''@'' @ ''x.com'')"
    by (rule parseaddr_text_bare [OF da(2) _ dot_atom_x_com]) simp
  have uq: "unquote_str ''%C3%A9'' = [CHR 0xC3, CHR 0xA9]"
    using unquote_quote [of "[CHR 0xC3, CHR 0xA9]"] by (simp only: quote_e9)
  have u1: "unsign ?s (Str ([CHR 0xC3, CHR 0xA9] @ ''.txghSg'')) = Inr [CHR 0xC3, CHR 0xA9]"
    using unsign_signed [OF sig_default_e9, of "Str ([CHR 0xC3, CHR 0xA9] @ ''.txghSg'')"]
    by (simp add: want_bytes_def)
  have u2: "unsign ?s (Unicode ([CHR 0xC3, CHR 0x83, CHR 0xC2, CHR 0xA9] @ ''.dxcLRg'')) =
      Inr [CHR 0xC3, CHR 0x83, CHR 0xC2, CHR 0xA9]"
    using unsign_signed [OF sig_default_e9u,
        of "Unicode ([CHR 0xC3, CHR 0x83, CHR 0xC2, CHR 0xA9] @ ''.dxcLRg'')"]
    by (simp add: want_bytes_def)
  have s1: "split_u (CHR '','') (Str [CHR 0xC3, CHR 0xA9]) = Inl UnicodeDecodeError"
    by (simp add: split_u_def)
  have s2: "split_u (CHR '','') (Str [CHR 0xC3, CHR 0x83, CHR 0xC2, CHR 0xA9]) =
      Inl UnicodeDecodeError"
    by (simp add: split_u_def)
  have c1: "content (Str ''from+%C3%A9.txghSg@x.com'') =
      ''from'' @ ''+'' @ ''%C3%A9'' @ ''.'' @ ''txghSg'' @ ''@'' @ ''x.com''" by simp
  have c2: "content (Unicode ''from+%C3%A9.dxcLRg@x.com'') =
      ''from'' @ ''+'' @ ''%C3%A9'' @ ''.'' @ ''dxcLRg'' @ ''@'' @ ''x.com''" by simp
  have t1: "principal_ids_from_addr ?s (Str ''from+%C3%A9.txghSg@x.com'') =
      (case py_sum (unquote (like (Str ''from+%C3%A9.txghSg@x.com'') ''%C3%A9''))
              [Str ''.'', like (Str ''from+%C3%A9.txghSg@x.com'') ''txghSg''] of
         Inl e \<Rightarrow> Inl e
       | Inr signed \<Rightarrow>
           (case unsign ?s signed of
              Inl e \<Rightarrow> if e = BadSignature then Inr [] else Inl e
            | Inr pids \<Rightarrow> split_u (CHR '','') (Str pids)))"
    by (rule principal_ids_from_addr_token [OF c1]) simp_all
  have t2: "principal_ids_from_addr ?s (Unicode ''from+%C3%A9.dxcLRg@x.com'') =
      (case py_sum (unquote (like (Unicode ''from+%C3%A9.dxcLRg@x.com'') ''%C3%A9''))
              [Str ''.'', like (Unicode ''from+%C3%A9.dxcLRg@x.com'') ''dxcLRg''] of
         Inl e \<Rightarrow> Inl e
       | Inr signed \<Rightarrow>
           (case unsign ?s signed of
              Inl e \<Rightarrow> if e = BadSignature then Inr [] else Inl e
            | Inr pids \<Rightarrow> split_u (CHR '','') (Str pids)))"
    by (rule principal_ids_from_addr_token [OF c2]) simp_all
  have a1: "principal_ids_from_addr ?s (Str ''from+%C3%A9.txghSg@x.com'') = Inl UnicodeDecodeError"
    unfolding t1 like.simps unquote.simps uq using u1 s1 by simp
  have a2: "principal_ids_from_addr ?s (Unicode ''from+%C3%A9.dxcLRg@x.com'') =
      Inl UnicodeDecodeError"
    unfolding t2 like.simps unquote.simps unquote_unicode_e9 using u2 s2 by simp
  have d1: "principal_ids_from_verp env0 (Str ''from+%C3%A9.txghSg@x.com'') None =
      Inl UnicodeDecodeError"
    unfolding principal_ids_from_verp_def
    using p1 a1 by (simp add: contains_u_def parseaddr_def)
  have d2: "principal_ids_from_verp env0 (Unicode ''from+%C3%A9.dxcLRg@x.com'') None =
      Inl UnicodeDecodeError"
    unfolding principal_ids_from_verp_def
    using p2 a2 by (simp add: contains_u_def parseaddr_def)
  from u1 d1 u2 d2 show ?thesis by simp
qed

text \<open>What holds of the split: an ASCII message gives one piece more than it has commas.\<close>

lemma split_u_ascii:
  assumes "ascii pids"
  shows "split_u (CHR '','') (Str pids) = Inr (map Unicode (split_char (CHR '','') pids)) \<and>
         length (split_char (CHR '','') pids) = Suc (count_list pids (CHR '',''))"
  using assms by (simp add: split_u_def length_split_char)

end
